theory Spec2Isabelle
  imports Main "HOL-Library.Sublist" "HOL-Library.AList" "HOL-Library.Char_ord"
    "HOL-Library.List_Lexorder" "HOL-Library.Multiset"
begin

section \<open>Strings and dictionaries of the Python source\<close>

text \<open>
  Python strings are modelled as \<^typ>\<open>string\<close>. With \<open>Char_ord\<close> and \<open>List_Lexorder\<close> the
  order on \<^typ>\<open>string\<close> is the lexicographic order by character code, which is the order
  Python's \<open>sorted\<close> uses on \<open>str\<close>.
\<close>

definition newline :: char where
  "newline = CHR 0x0A"

text \<open>\<open>s.rstrip("\n")\<close>: every trailing newline is removed.\<close>

definition rstrip_newline :: "string \<Rightarrow> string" where
  "rstrip_newline s = rev (dropWhile (\<lambda>c. c = newline) (rev s))"

text \<open>\<open>s.split(sep)[0]\<close> for a non-empty separator: the text before the first occurrence
  of \<open>sep\<close>, the whole of \<open>s\<close> when \<open>sep\<close> does not occur.\<close>

fun split_first :: "string \<Rightarrow> string \<Rightarrow> string" where
  "split_first sep [] = []"
| "split_first sep (c # cs) =
     (if prefix sep (c # cs) then [] else c # split_first sep cs)"

text \<open>
  A Python \<open>dict\<close> is an association list in insertion order. Storing a key that is already
  there replaces its value in place (\<^const>\<open>AList.update\<close>); \<open>dict_update_all items d\<close> stores the
  items from left to right, so that the last value of a repeated key wins. A dict
  comprehension and \<open>dict(items)\<close> are \<open>dict_update_all items []\<close>, and the display
  \<open>{**a, **b}\<close> stores the items of \<open>a\<close> and then those of \<open>b\<close> into a new dict.
\<close>

type_synonym ('k, 'v) dict = "('k \<times> 'v) list"

text \<open>The exception the modelled code raises: \<open>KeyError\<close> with the key that is missing.\<close>

datatype error = KeyError string

definition dict_update_all :: "('k \<times> 'v) list \<Rightarrow> ('k, 'v) dict \<Rightarrow> ('k, 'v) dict" where
  "dict_update_all items d = fold (\<lambda>(k, v). AList.update k v) items d"

definition dict_merge :: "('k, 'v) dict \<Rightarrow> ('k, 'v) dict \<Rightarrow> ('k, 'v) dict" where
  "dict_merge a b = dict_update_all b (dict_update_all a [])"

definition keys :: "('k, 'v) dict \<Rightarrow> 'k set" where
  "keys d = set (map fst d)"

definition get :: "('k, 'v) dict \<Rightarrow> 'k \<Rightarrow> 'v option" where
  "get d k = map_of d k"

section \<open>Requirement\<close>

record Requirement =
  package_name :: string
  requirement_line :: string

text \<open>
  The class attribute \<open>git_parser\<close> is the regular expression
  \<^verbatim>\<open>^(?:-e )?git\+.*#egg=(?P<package>.*)$\<close>, used with \<open>match\<close> and no flags. A dot matches
  every character but the newline, both stars are greedy, and the final \<open>$\<close> matches at the
  end of the string or just before a newline that ends the string. \<open>after_last pat s\<close> is the
  text that follows the last occurrence of \<open>pat\<close> in \<open>s\<close>, which is where the greedy first
  star leaves the group \<open>package\<close>. \<open>git_parser line\<close> is the group \<open>package\<close> of the match, and
  \<open>None\<close> when the line does not match.
\<close>

fun after_last :: "string \<Rightarrow> string \<Rightarrow> string option" where
  "after_last pat [] = None"
| "after_last pat (c # cs) =
     (case after_last pat cs of
        Some p \<Rightarrow> Some p
      | None \<Rightarrow> if prefix pat (c # cs) then Some (drop (length pat) (c # cs)) else None)"

definition chop_final_newline :: "string \<Rightarrow> string" where
  "chop_final_newline s = (if s \<noteq> [] \<and> last s = newline then butlast s else s)"

definition git_parser :: "string \<Rightarrow> string option" where
  "git_parser line =
     (let rest = (if prefix ''-e '' line then drop 3 line else line) in
      if \<not> prefix ''git+'' rest then None
      else let body = chop_final_newline (drop 4 rest) in
        if newline \<in> set body then None else after_last ''#egg='' body)"

definition parse_requirement_line :: "string \<Rightarrow> Requirement" where
  "parse_requirement_line line =
     (case git_parser line of
        Some package \<Rightarrow>
          \<lparr>package_name = rstrip_newline package, requirement_line = rstrip_newline line\<rparr>
      | None \<Rightarrow>
          \<lparr>package_name = split_first ''=='' (rstrip_newline line),
           requirement_line = rstrip_newline line\<rparr>)"

text \<open>
  A package entry of Pipfile.lock, with the four keys \<open>from_data\<close> reads. A key that is
  absent is \<open>None\<close>. The source tests \<open>package_data.get(key)\<close> for truth, so an empty
  string counts like an absent key: \<open>truthy\<close> is the value the walrus binds when the test
  succeeds.
\<close>

record lock_entry =
  version :: "string option"
  git :: "string option"
  editable :: "bool option"
  ref :: "string option"

fun truthy :: "string option \<Rightarrow> string option" where
  "truthy None = None"
| "truthy (Some s) = (if s = [] then None else Some s)"

definition from_data :: "string \<Rightarrow> lock_entry \<Rightarrow> Requirement" where
  "from_data name package_data =
     (case truthy (version package_data) of
        Some v \<Rightarrow> \<lparr>package_name = name, requirement_line = name @ v\<rparr>
      | None \<Rightarrow>
         (case truthy (git package_data) of
            Some git_url \<Rightarrow>
              (let pre = (if editable package_data = Some True then ''-e '' else []);
                   rf = (case truthy (ref package_data) of
                           Some git_ref \<Rightarrow> ''@'' @ git_ref
                         | None \<Rightarrow> [])
               in \<lparr>package_name = name,
                   requirement_line = pre @ ''git+'' @ git_url @ rf @ ''#egg='' @ name\<rparr>)
          | None \<Rightarrow> \<lparr>package_name = name, requirement_line = name\<rparr>))"

section \<open>Pipfile, Pipfile.lock and the dependency graph\<close>

text \<open>
  \<open>Pipfile.parse()\<close> is the parsed TOML document; the source reads its tables \<open>packages\<close> and
  \<open>dev-packages\<close> by subscript, which raises \<open>KeyError\<close> when the table is absent. A table
  that is present is given by its items, an absent one is \<open>None\<close>. The three properties are
  \<open>default_packages\<close>, \<open>dev_packages\<close> and \<open>all_packages\<close>; the display in \<open>all_packages\<close>
  reads \<open>packages\<close> first. \<open>PipfileLock.parse()\<close> is the parsed JSON object with its sections
  \<open>default\<close> and \<open>develop\<close>, read by subscript in the same way; the properties
  \<open>PipfileLock.default\<close> and \<open>PipfileLock.dev\<close> are \<open>lock_default\<close> and \<open>lock_dev\<close>. One element
  of the list that \<open>pipenv graph --json\<close> prints is a package name with the names of its
  dependencies. Reading and decoding the two files and running \<open>pipenv\<close> are outside the
  model: the decoded documents and the decoded graph are its input.
\<close>

record Pipfile =
  packages_table :: "(string, string) dict option"
  dev_packages_table :: "(string, string) dict option"

definition default_packages :: "Pipfile \<Rightarrow> error + (string, string) dict" where
  "default_packages pf =
     (case packages_table pf of
        None \<Rightarrow> Inl (KeyError ''packages'')
      | Some p \<Rightarrow> Inr (dict_update_all p []))"

definition dev_packages :: "Pipfile \<Rightarrow> error + (string, string) dict" where
  "dev_packages pf =
     (case dev_packages_table pf of
        None \<Rightarrow> Inl (KeyError ''dev-packages'')
      | Some d \<Rightarrow> Inr (dict_update_all d []))"

definition all_packages :: "Pipfile \<Rightarrow> error + (string, string) dict" where
  "all_packages pf =
     (case packages_table pf of
        None \<Rightarrow> Inl (KeyError ''packages'')
      | Some p \<Rightarrow>
         (case dev_packages_table pf of
            None \<Rightarrow> Inl (KeyError ''dev-packages'')
          | Some d \<Rightarrow> Inr (dict_merge p d)))"

record PipfileLock =
  default_section :: "(string, lock_entry) dict option"
  develop_section :: "(string, lock_entry) dict option"

definition lock_default :: "PipfileLock \<Rightarrow> error + (string, Requirement) dict" where
  "lock_default lk =
     (case default_section lk of
        None \<Rightarrow> Inl (KeyError ''default'')
      | Some pkgs \<Rightarrow> Inr (dict_update_all (map (\<lambda>(n, e). (n, from_data n e)) pkgs) []))"

definition lock_dev :: "PipfileLock \<Rightarrow> error + (string, Requirement) dict" where
  "lock_dev lk =
     (case develop_section lk of
        None \<Rightarrow> Inl (KeyError ''develop'')
      | Some pkgs \<Rightarrow> Inr (dict_update_all (map (\<lambda>(n, e). (n, from_data n e)) pkgs) []))"

record graph_entry =
  package :: string
  dependencies :: "string list"

record PackageProcessor =
  pipfile :: Pipfile
  pipfile_lock :: PipfileLock
  graph :: "graph_entry list"
  force :: bool
  in_place :: bool
  include_dev :: bool

definition dependency_map :: "PackageProcessor \<Rightarrow> (string, string list) dict" where
  "dependency_map self =
     dict_update_all (map (\<lambda>d. (package d, dependencies d)) (graph self)) []"

section \<open>generate_requirements\<close>

text \<open>
  The function reads \<open>environment\<close> and then \<open>version_map\<close> before it looks at the list; each
  read raises the \<open>KeyError\<close> of an absent table. \<open>env\<close> and \<open>vm\<close> below are the values of the
  local variables \<open>environment\<close> and \<open>version_map\<close>.
\<close>

definition requirements_dict :: "Requirement list \<Rightarrow> (string, Requirement) dict" where
  "requirements_dict requirements_list =
     dict_update_all (map (\<lambda>r. (package_name r, r)) requirements_list) []"

definition environment :: "PackageProcessor \<Rightarrow> error + (string, string) dict" where
  "environment self =
     (if include_dev self then all_packages (pipfile self)
      else default_packages (pipfile self))"

definition version_map ::
  "PackageProcessor \<Rightarrow> Requirement list \<Rightarrow> error + (string, Requirement) dict" where
  "version_map self requirements_list =
     (if include_dev self
      then (case lock_dev (pipfile_lock self) of
              Inl e \<Rightarrow> Inl e
            | Inr dev \<Rightarrow> Inr (dict_merge (requirements_dict requirements_list) dev))
      else (case lock_default (pipfile_lock self) of
              Inl e \<Rightarrow> Inl e
            | Inr dflt \<Rightarrow> Inr (dict_merge (requirements_dict requirements_list) dflt)))"

text \<open>
  The generator \<open>generate_dependencies\<close> yields each requirement and then the dependencies
  the graph lists for it; a \<open>KeyError\<close> of the lookup is caught there and only logged. The
  source iterates over the set \<open>root_requirements\<close> in an unspecified order and collects what
  is yielded in a set; the model iterates in sorted order, and
  \<open>set_generate_dependencies\<close> below shows that the order makes no difference.
  \<open>yielded\<close> names what one turn of the loop yields. \<open>full_dependencies\<close> is the value of the
  variable of that name when the final comprehension runs.
\<close>

fun generate_dependencies :: "(string, string list) dict \<Rightarrow> string list \<Rightarrow> string list" where
  "generate_dependencies dm [] = []"
| "generate_dependencies dm (requirement # requirements) =
     requirement # (case get dm requirement of Some deps \<Rightarrow> deps | None \<Rightarrow> [])
       @ generate_dependencies dm requirements"

definition yielded :: "(string, string list) dict \<Rightarrow> string \<Rightarrow> string set" where
  "yielded dm requirement =
     insert requirement (case get dm requirement of Some deps \<Rightarrow> set deps | None \<Rightarrow> {})"

definition root_requirements :: "(string, string) dict \<Rightarrow> Requirement list \<Rightarrow> string set" where
  "root_requirements env requirements_list =
     keys (requirements_dict requirements_list) \<inter> keys env"

definition full_dependencies ::
  "PackageProcessor \<Rightarrow> (string, string) dict \<Rightarrow> Requirement list \<Rightarrow> string set" where
  "full_dependencies self env requirements_list =
     (let full_dependencies =
            set (generate_dependencies (dependency_map self)
                   (sorted_list_of_set (root_requirements env requirements_list)))
      in if in_place self \<and> \<not> force self
         then full_dependencies \<union> keys (requirements_dict requirements_list)
         else full_dependencies)"

text \<open>
  The branches of the policy test. The logger calls have no effect on the result and are
  left out. With \<open>in_place\<close> and not \<open>force\<close> the keys were added above and nothing else
  happens. Otherwise, when some existing package is missing from the closure and \<open>in_place\<close>
  is unset, the loop over the missing packages tests
  \<open>not self.include_dev and package in self.pipfile.dev_packages\<close>, which reads the table
  \<open>dev-packages\<close> unless \<open>include_dev\<close> is set.
\<close>

definition policy_branch ::
  "PackageProcessor \<Rightarrow> (string, string) dict \<Rightarrow> Requirement list \<Rightarrow> error + unit" where
  "policy_branch self env requirements_list =
     (if in_place self \<and> \<not> force self then Inr ()
      else
        (let missing = keys (requirements_dict requirements_list)
                         - full_dependencies self env requirements_list
         in if missing = {} then Inr ()
            else if in_place self then Inr ()
            else if \<not> include_dev self
              then (case dev_packages (pipfile self) of
                      Inl e \<Rightarrow> Inl e
                    | Inr dev \<Rightarrow> Inr ())
              else Inr ()))"

text \<open>
  The final list comprehension evaluates \<open>version_map[dep]\<close> for the names in sorted order
  and raises \<open>KeyError\<close> at the first one that is missing: \<open>lookup_lines\<close> is that
  comprehension, and \<open>emitted_names\<close> is \<open>sorted(full_dependencies)\<close>, the names whose lines
  are emitted, in the order of emission.
\<close>

fun lookup_lines :: "(string, Requirement) dict \<Rightarrow> string list \<Rightarrow> error + string list" where
  "lookup_lines vm [] = Inr []"
| "lookup_lines vm (dep # deps) =
     (case get vm dep of
        None \<Rightarrow> Inl (KeyError dep)
      | Some r \<Rightarrow>
         (case lookup_lines vm deps of
            Inl e \<Rightarrow> Inl e
          | Inr ls \<Rightarrow> Inr (requirement_line r # ls)))"

definition emitted_names ::
  "PackageProcessor \<Rightarrow> (string, string) dict \<Rightarrow> Requirement list \<Rightarrow> string list" where
  "emitted_names self env requirements_list =
     sorted_list_of_set (full_dependencies self env requirements_list)"

definition generate_requirements ::
  "PackageProcessor \<Rightarrow> Requirement list \<Rightarrow> error + string list" where
  "generate_requirements self requirements_list =
     (case environment self of
        Inl e \<Rightarrow> Inl e
      | Inr env \<Rightarrow>
         (case version_map self requirements_list of
            Inl e \<Rightarrow> Inl e
          | Inr vm \<Rightarrow>
             (case policy_branch self env requirements_list of
                Inl e \<Rightarrow> Inl e
              | Inr u \<Rightarrow> lookup_lines vm (emitted_names self env requirements_list))))"

section \<open>Example projects\<close>

text \<open>
  \<open>scenario_processor\<close> is the project of the scenario in the specification: the Pipfile
  declares \<open>a\<close> and \<open>b\<close>, the lock pins \<open>a\<close>, \<open>b\<close> and \<open>c\<close>, and the graph gives \<open>a\<close> the
  dependency \<open>c\<close>. In \<open>unlocked_processor\<close> the graph names a dependency \<open>c\<close> that the
  lock does not pin.
\<close>

definition entry_version :: "string \<Rightarrow> lock_entry" where
  "entry_version v = \<lparr>version = Some v, git = None, editable = None, ref = None\<rparr>"

definition scenario_processor :: PackageProcessor where
  "scenario_processor =
     \<lparr>pipfile = \<lparr>packages_table = Some [(''a'', ''*''), (''b'', ''*'')],
                 dev_packages_table = Some []\<rparr>,
      pipfile_lock =
        \<lparr>default_section = Some [(''a'', entry_version ''==1.0''),
                                 (''b'', entry_version ''==2.0''),
                                 (''c'', entry_version ''==3.0'')],
         develop_section = Some []\<rparr>,
      graph = [\<lparr>package = ''a'', dependencies = [''c'']\<rparr>,
               \<lparr>package = ''b'', dependencies = []\<rparr>],
      force = False, in_place = False, include_dev = False\<rparr>"

definition unlocked_processor :: PackageProcessor where
  "unlocked_processor =
     \<lparr>pipfile = \<lparr>packages_table = Some [(''a'', ''*'')], dev_packages_table = Some []\<rparr>,
      pipfile_lock = \<lparr>default_section = Some [(''a'', entry_version ''==1.0'')],
                      develop_section = Some []\<rparr>,
      graph = [\<lparr>package = ''a'', dependencies = [''c'']\<rparr>],
      force = False, in_place = False, include_dev = False\<rparr>"

text \<open>
  In \<open>chain_processor\<close> the Pipfile declares \<open>a\<close> and \<open>c\<close>, and the graph gives \<open>a\<close> the
  dependency \<open>c\<close> and \<open>c\<close> the dependency \<open>d\<close>. \<open>flat_processor\<close> is the same project without
  the dependency of \<open>c\<close>.
\<close>

definition chain_processor :: PackageProcessor where
  "chain_processor =
     \<lparr>pipfile = \<lparr>packages_table = Some [(''a'', ''*''), (''c'', ''*'')],
                 dev_packages_table = Some []\<rparr>,
      pipfile_lock =
        \<lparr>default_section = Some [(''a'', entry_version ''==1.0''),
                                 (''c'', entry_version ''==1.0''),
                                 (''d'', entry_version ''==1.0'')],
         develop_section = Some []\<rparr>,
      graph = [\<lparr>package = ''a'', dependencies = [''c'']\<rparr>,
               \<lparr>package = ''c'', dependencies = [''d'']\<rparr>],
      force = False, in_place = False, include_dev = False\<rparr>"

definition flat_processor :: PackageProcessor where
  "flat_processor = chain_processor\<lparr>graph := [\<lparr>package = ''a'', dependencies = [''c'']\<rparr>,
                                              \<lparr>package = ''c'', dependencies = []\<rparr>]\<rparr>"

text \<open>
  \<open>no_dev_table_processor\<close> has a Pipfile without the table \<open>dev-packages\<close> and is run with
  \<open>include_dev\<close>.
\<close>

definition no_dev_table_processor :: PackageProcessor where
  "no_dev_table_processor =
     \<lparr>pipfile = \<lparr>packages_table = Some [(''a'', ''*'')], dev_packages_table = None\<rparr>,
      pipfile_lock = \<lparr>default_section = Some [(''a'', entry_version ''==1.0'')],
                      develop_section = Some []\<rparr>,
      graph = [],
      force = False, in_place = False, include_dev = True\<rparr>"

text \<open>
  \<open>editable_git_entry\<close> is the git entry of the specification's example, and
  \<open>empty_version_entry\<close> an entry whose \<open>version\<close> key is present with the empty string.
\<close>

definition editable_git_entry :: lock_entry where
  "editable_git_entry =
     \<lparr>version = None, git = Some ''https://x'', editable = Some True, ref = Some ''main''\<rparr>"

definition empty_version_entry :: lock_entry where
  "empty_version_entry =
     \<lparr>version = Some [], git = Some ''https://x'', editable = None, ref = None\<rparr>"

section \<open>The parsing rules in the words of the specification\<close>

text \<open>
  \<open>vcs_form line name\<close>: the line has the VCS form \<^verbatim>\<open>[-e ]git+<url>#egg=<name>\<close>, up to one
  final newline. \<open>newline_stripped line s\<close>: \<open>s\<close> is the line without its trailing newlines.
  \<open>before_first sep s r\<close>: \<open>r\<close> is the substring of \<open>s\<close> before the first \<open>sep\<close>, the whole of
  \<open>s\<close> when \<open>sep\<close> does not occur. \<open>spec_package_name line name\<close>: the name the specification
  gives to the line, by the egg fragment when the line has the VCS form (the shortest
  fragment, since the pattern is greedy before \<^verbatim>\<open>#egg=\<close>) and else by the split at \<^verbatim>\<open>==\<close>
  of the newline-stripped line.
\<close>

definition vcs_form :: "string \<Rightarrow> string \<Rightarrow> bool" where
  "vcs_form line name \<longleftrightarrow>
     (\<exists>pre url tail. (pre = [] \<or> pre = ''-e '') \<and> (tail = [] \<or> tail = [newline]) \<and>
        line = pre @ ''git+'' @ url @ ''#egg='' @ name @ tail \<and>
        newline \<notin> set url \<and> newline \<notin> set name)"

definition newline_stripped :: "string \<Rightarrow> string \<Rightarrow> bool" where
  "newline_stripped line s \<longleftrightarrow>
     (\<exists>k. line = s @ replicate k newline) \<and> (s = [] \<or> last s \<noteq> newline)"

definition before_first :: "string \<Rightarrow> string \<Rightarrow> string \<Rightarrow> bool" where
  "before_first sep s r \<longleftrightarrow>
     ((\<exists>a b. s = a @ sep @ b) \<longrightarrow>
        (\<exists>b. s = r @ sep @ b) \<and> (\<forall>a b. s = a @ sep @ b \<longrightarrow> length r \<le> length a)) \<and>
     (\<not> (\<exists>a b. s = a @ sep @ b) \<longrightarrow> r = s)"

definition spec_package_name :: "string \<Rightarrow> string \<Rightarrow> bool" where
  "spec_package_name line name \<longleftrightarrow>
     ((\<exists>n. vcs_form line n) \<longrightarrow>
        vcs_form line name \<and> (\<forall>n. vcs_form line n \<longrightarrow> length name \<le> length n)) \<and>
     (\<not> (\<exists>n. vcs_form line n) \<longrightarrow>
        (\<exists>s. newline_stripped line s \<and> before_first ''=='' s name))"

section \<open>Facts about dictionaries\<close>

lemma get_eq: "get d = map_of d"
  by (rule ext) (simp add: get_def)

lemma keys_dom: "keys d = dom (get d)"
  by (simp add: keys_def get_eq dom_map_of_conv_image_fst)

lemma map_of_dict_update_all:
  "map_of (dict_update_all items d) = map_of d ++ map_of (rev items)"
  unfolding dict_update_all_def
proof (induction items arbitrary: d)
  case Nil
  show ?case by simp
next
  case (Cons kv items)
  obtain k v where kv: "kv = (k, v)" by (cases kv)
  have "map_of (AList.update k v d) ++ map_of (rev items)
      = map_of d ++ ([k \<mapsto> v] ++ map_of (rev items))"
    by (rule ext) (simp add: update_conv' map_add_def split: option.splits)
  then show ?case using Cons.IH [of "AList.update k v d"] by (simp add: kv)
qed

lemma distinct_dict_update_all:
  "distinct (map fst d) \<Longrightarrow> distinct (map fst (dict_update_all items d))"
  unfolding dict_update_all_def
proof (induction items arbitrary: d)
  case Nil
  then show ?case by simp
next
  case (Cons kv items)
  obtain k v where kv: "kv = (k, v)" by (cases kv)
  have "distinct (map fst (AList.update k v d))"
    using Cons.prems by (rule distinct_update)
  then show ?case using Cons.IH [of "AList.update k v d"] by (simp add: kv)
qed

lemma keys_dict_update_all:
  "keys (dict_update_all items d) = keys d \<union> fst ` set items"
proof -
  have "dom (map_of (dict_update_all items d)) = dom (map_of d) \<union> dom (map_of (rev items))"
    by (simp add: map_of_dict_update_all Un_commute)
  then show ?thesis
    by (simp add: keys_def dom_map_of_conv_image_fst)
qed

lemma map_of_rev_distinct:
  "distinct (map fst d) \<Longrightarrow> map_of (rev d) = map_of d"
  by (rule map_of_inject_set [THEN iffD2]) (simp_all add: rev_map [symmetric])

lemma get_dict_update_all:
  assumes "distinct (map fst items)"
  shows "get (dict_update_all items d) k =
    (case get items k of Some v \<Rightarrow> Some v | None \<Rightarrow> get d k)"
  using assms
  by (simp add: get_def map_of_dict_update_all map_of_rev_distinct map_add_def
      split: option.splits)

lemma get_dict_merge:
  assumes "distinct (map fst a)" and "distinct (map fst b)"
  shows "get (dict_merge a b) k = (case get b k of Some v \<Rightarrow> Some v | None \<Rightarrow> get a k)"
proof -
  have "get (dict_update_all a []) k = get a k"
    using assms(1) by (simp add: get_def map_of_dict_update_all map_of_rev_distinct)
  then show ?thesis
    using assms(2) by (simp add: dict_merge_def get_dict_update_all split: option.splits)
qed

lemma keys_dict_merge: "keys (dict_merge a b) = keys a \<union> keys b"
  unfolding dict_merge_def keys_dict_update_all by (simp add: keys_def)

lemma keys_requirements_dict: "keys (requirements_dict rs) = package_name ` set rs"
  unfolding requirements_dict_def keys_dict_update_all by (simp add: keys_def image_image)

lemma distinct_requirements_dict: "distinct (map fst (requirements_dict rs))"
  unfolding requirements_dict_def by (rule distinct_dict_update_all) simp

lemma lock_default_distinct: "lock_default lk = Inr d \<Longrightarrow> distinct (map fst d)"
  unfolding lock_default_def
  by (auto split: option.splits intro!: distinct_dict_update_all)

lemma lock_dev_distinct: "lock_dev lk = Inr d \<Longrightarrow> distinct (map fst d)"
  unfolding lock_dev_def
  by (auto split: option.splits intro!: distinct_dict_update_all)

text \<open>In these facts \<open>lock\<close> is the section of the lock that \<open>version_map\<close> overlays on
  the existing requirements.\<close>

lemma version_map_Inr:
  assumes "version_map self rs = Inr vm"
  shows "\<exists>lock. (if include_dev self then lock_dev (pipfile_lock self)
                 else lock_default (pipfile_lock self)) = Inr lock \<and>
           distinct (map fst lock) \<and> vm = dict_merge (requirements_dict rs) lock"
  using assms unfolding version_map_def
  by (auto split: if_splits sum.splits dest: lock_dev_distinct lock_default_distinct)

lemma get_version_map:
  assumes "version_map self rs = Inr vm"
    and "(if include_dev self then lock_dev (pipfile_lock self)
          else lock_default (pipfile_lock self)) = Inr lock"
  shows "get vm k = (case get lock k of Some r \<Rightarrow> Some r | None \<Rightarrow> get (requirements_dict rs) k)"
proof -
  obtain lock' where l: "(if include_dev self then lock_dev (pipfile_lock self)
                 else lock_default (pipfile_lock self)) = Inr lock'"
      "distinct (map fst lock')" "vm = dict_merge (requirements_dict rs) lock'"
    using version_map_Inr [OF assms(1)] by blast
  then have "lock' = lock" using assms(2) by simp
  then show ?thesis using l by (simp add: get_dict_merge distinct_requirements_dict)
qed

lemma version_map_Inr_other:
  assumes "version_map self rs = Inr vm"
  shows "\<exists>vm'. version_map self rs' = Inr vm'"
  using assms unfolding version_map_def by (auto split: if_splits sum.splits)

lemma get_requirements_dict_mem:
  assumes "get (requirements_dict rs) n = Some r"
  shows "r \<in> set rs \<and> package_name r = n"
proof -
  have "map_of (rev (map (\<lambda>r. (package_name r, r)) rs)) n = Some r"
    using assms by (simp add: requirements_dict_def get_eq map_of_dict_update_all)
  then have "(n, r) \<in> set (rev (map (\<lambda>r. (package_name r, r)) rs))"
    by (rule map_of_SomeD)
  then show ?thesis by auto
qed

section \<open>Facts about the closure and the emitted lines\<close>

lemma finite_yielded: "finite (yielded dm r)"
  by (simp add: yielded_def split: option.splits)

lemma finite_root_requirements: "finite (root_requirements env rs)"
  by (simp add: root_requirements_def keys_def)

lemma set_generate_dependencies:
  "set (generate_dependencies dm rs) = (\<Union>r \<in> set rs. yielded dm r)"
  by (induction rs) (auto simp add: yielded_def split: option.splits)

lemma full_dependencies_expand:
  "full_dependencies self env rs =
     (let expanded = (\<Union>r \<in> root_requirements env rs. yielded (dependency_map self) r)
      in if in_place self \<and> \<not> force self
         then expanded \<union> keys (requirements_dict rs)
         else expanded)"
  by (simp add: full_dependencies_def set_generate_dependencies finite_root_requirements)

lemma finite_full_dependencies: "finite (full_dependencies self env rs)"
  by (simp add: full_dependencies_expand Let_def finite_root_requirements finite_yielded keys_def)

lemma set_emitted_names: "set (emitted_names self env rs) = full_dependencies self env rs"
  by (simp add: emitted_names_def finite_full_dependencies)

lemma sorted_emitted_names: "sorted (emitted_names self env rs)"
  by (simp add: emitted_names_def)

lemma distinct_emitted_names: "distinct (emitted_names self env rs)"
  by (simp add: emitted_names_def)

lemma root_subset_full_dependencies:
  "root_requirements env rs \<subseteq> full_dependencies self env rs"
  by (auto simp add: full_dependencies_expand yielded_def Let_def)

lemma full_dependencies_keys_cong:
  assumes k: "keys (requirements_dict rs') = keys (requirements_dict rs)"
  shows "full_dependencies self env rs' = full_dependencies self env rs"
  unfolding full_dependencies_expand root_requirements_def k by (rule refl)

lemma emitted_names_set_cong:
  assumes "set rs' = set rs"
  shows "emitted_names self env rs' = emitted_names self env rs"
proof -
  have "keys (requirements_dict rs') = keys (requirements_dict rs)"
    unfolding keys_requirements_dict assms by (rule refl)
  then have "full_dependencies self env rs' = full_dependencies self env rs"
    by (rule full_dependencies_keys_cong)
  then show ?thesis unfolding emitted_names_def by (rule arg_cong)
qed

lemma policy_branch_keys_cong:
  assumes k: "keys (requirements_dict rs') = keys (requirements_dict rs)"
  shows "policy_branch self env rs' = policy_branch self env rs"
  unfolding policy_branch_def full_dependencies_keys_cong [OF k] k by (rule refl)

lemma policy_branch_additive:
  "in_place self \<Longrightarrow> \<not> force self \<Longrightarrow> policy_branch self env rs = Inr ()"
  by (simp add: policy_branch_def)

lemma policy_branch_no_missing:
  "keys (requirements_dict rs) \<subseteq> full_dependencies self env rs \<Longrightarrow>
   policy_branch self env rs = Inr ()"
  by (simp add: policy_branch_def Let_def)

lemma policy_branch_Inl:
  assumes "policy_branch self env rs = Inl e"
  shows "e = KeyError ''dev-packages'' \<and> dev_packages_table (pipfile self) = None \<and>
     \<not> in_place self \<and> \<not> include_dev self"
  using assms unfolding policy_branch_def dev_packages_def
  by (auto simp add: Let_def split: if_splits option.splits)

lemma policy_branch_dev_table:
  "dev_packages_table (pipfile self) \<noteq> None \<Longrightarrow> policy_branch self env rs = Inr ()"
  unfolding policy_branch_def dev_packages_def
  by (auto simp add: Let_def split: if_splits option.splits)

text \<open>The final comprehension.\<close>

lemma lookup_lines_Inr:
  "lookup_lines vm ns = Inr ls \<longleftrightarrow>
     (\<forall>n \<in> set ns. get vm n \<noteq> None) \<and>
     ls = map (\<lambda>n. requirement_line (the (get vm n))) ns"
proof (induction ns arbitrary: ls)
  case Nil
  show ?case by auto
next
  case (Cons a ns)
  show ?case
  proof (cases "get vm a")
    case None
    then show ?thesis by simp
  next
    case (Some r)
    show ?thesis
    proof (cases "lookup_lines vm ns")
      case (Inl e)
      then have "\<not> (\<forall>n \<in> set ns. get vm n \<noteq> None)"
        using Cons.IH [of "map (\<lambda>n. requirement_line (the (get vm n))) ns"] by simp
      then show ?thesis using Some Inl by simp
    next
      case (Inr ls')
      then have "(\<forall>n \<in> set ns. get vm n \<noteq> None) \<and>
          ls' = map (\<lambda>n. requirement_line (the (get vm n))) ns"
        using Cons.IH [of ls'] by simp
      then show ?thesis using Some Inr by auto
    qed
  qed
qed

lemma lookup_lines_Inl:
  assumes "lookup_lines vm ns = Inl e"
  shows "\<exists>n \<in> set ns. e = KeyError n \<and> get vm n = None"
  using assms
proof (induction ns)
  case Nil
  then show ?case by simp
next
  case (Cons a ns)
  show ?case
  proof (cases "get vm a")
    case None
    then show ?thesis using Cons.prems by simp
  next
    case (Some r)
    then have "lookup_lines vm ns = Inl e" using Cons.prems by (simp split: sum.splits)
    then show ?thesis using Cons.IH by auto
  qed
qed

lemma lookup_lines_cong:
  assumes "\<forall>n \<in> set ns. map_option requirement_line (get vm' n) = map_option requirement_line (get vm n)"
  shows "lookup_lines vm' ns = lookup_lines vm ns"
  using assms
proof (induction ns)
  case Nil
  show ?case by simp
next
  case (Cons a ns)
  then have "lookup_lines vm' ns = lookup_lines vm ns" by simp
  moreover have "map_option requirement_line (get vm' a) = map_option requirement_line (get vm a)"
    using Cons.prems by simp
  ultimately show ?case
    by (cases "get vm a"; cases "get vm' a") (auto split: sum.splits)
qed

text \<open>When \<open>generate_requirements\<close> returns, and what it raises.\<close>

lemma generate_requirements_Inr:
  "generate_requirements self rs = Inr out \<longleftrightarrow>
     (\<exists>env vm. environment self = Inr env \<and> version_map self rs = Inr vm \<and>
        policy_branch self env rs = Inr () \<and>
        lookup_lines vm (emitted_names self env rs) = Inr out)"
  unfolding generate_requirements_def
  by (cases "environment self"; cases "version_map self rs")
     (auto split: sum.splits)

lemma generate_requirements_run:
  assumes "environment self = Inr env" and "version_map self rs = Inr vm"
  shows "generate_requirements self rs =
     (case policy_branch self env rs of
        Inl e \<Rightarrow> Inl e
      | Inr u \<Rightarrow> lookup_lines vm (emitted_names self env rs))"
  unfolding generate_requirements_def using assms by simp

text \<open>Permutations of the existing list and of the graph.\<close>

lemma get_requirements_dict_perm:
  assumes "mset rs' = mset rs" and "distinct (map package_name rs)"
  shows "get (requirements_dict rs') = get (requirements_dict rs)"
proof -
  let ?f = "\<lambda>r. (package_name r, r)"
  have m: "mset (map package_name rs') = mset (map package_name rs)"
    using assms(1) by (metis mset_map)
  have d': "distinct (map package_name rs')"
    using assms(2) m by (metis mset_eq_imp_distinct_iff)
  have s: "set rs' = set rs" using assms(1) by (rule mset_eq_setD)
  have "map_of (rev (map ?f rs')) = map_of (rev (map ?f rs))"
    by (rule map_of_inject_set [THEN iffD2])
      (use assms(2) d' s in \<open>simp_all add: rev_map [symmetric] comp_def\<close>)
  then show ?thesis
    by (simp add: get_eq requirements_dict_def map_of_dict_update_all)
qed

lemma get_dependency_map_perm:
  assumes "mset g' = mset (graph self)" and "distinct (map package (graph self))"
  shows "get (dependency_map (self\<lparr>graph := g'\<rparr>)) = get (dependency_map self)"
proof -
  let ?f = "\<lambda>d. (package d, dependencies d)"
  have m: "mset (map package g') = mset (map package (graph self))"
    using assms(1) by (metis mset_map)
  have d': "distinct (map package g')"
    using assms(2) m by (metis mset_eq_imp_distinct_iff)
  have s: "set g' = set (graph self)" using assms(1) by (rule mset_eq_setD)
  have "map_of (rev (map ?f g')) = map_of (rev (map ?f (graph self)))"
    by (rule map_of_inject_set [THEN iffD2])
      (use assms(2) d' s in \<open>simp_all add: rev_map [symmetric] comp_def\<close>)
  then show ?thesis
    by (simp add: get_eq dependency_map_def map_of_dict_update_all)
qed

lemma generate_requirements_graph_perm:
  assumes "mset g' = mset (graph self)" and "distinct (map package (graph self))"
  shows "generate_requirements (self\<lparr>graph := g'\<rparr>) rs = generate_requirements self rs"
proof -
  let ?self' = "self\<lparr>graph := g'\<rparr>"
  have g: "get (dependency_map ?self') = get (dependency_map self)"
    using assms by (rule get_dependency_map_perm)
  have y: "yielded (dependency_map ?self') = yielded (dependency_map self)"
    by (rule ext) (simp add: yielded_def g)
  have env: "environment ?self' = environment self"
    by (simp add: environment_def)
  have fl: "in_place ?self' = in_place self" "force ?self' = force self"
    "include_dev ?self' = include_dev self" "pipfile ?self' = pipfile self" by simp_all
  have f: "full_dependencies ?self' e rs = full_dependencies self e rs" for e
    unfolding full_dependencies_expand y fl by (rule refl)
  have p: "policy_branch ?self' e rs = policy_branch self e rs" for e
    unfolding policy_branch_def f fl by (rule refl)
  have e: "emitted_names ?self' e rs = emitted_names self e rs" for e
    unfolding emitted_names_def f by (rule refl)
  have v: "version_map ?self' rs = version_map self rs"
    by (simp add: version_map_def)
  show ?thesis unfolding generate_requirements_def env v p e by (rule refl)
qed

lemma generate_requirements_perm:
  assumes "mset rs' = mset rs" and "distinct (map package_name rs)"
  shows "generate_requirements self rs' = generate_requirements self rs"
proof (cases "environment self")
  case (Inl e)
  then show ?thesis by (simp add: generate_requirements_def)
next
  case (Inr env)
  have g: "get (requirements_dict rs') = get (requirements_dict rs)"
    using assms by (rule get_requirements_dict_perm)
  have s: "set rs' = set rs" using assms(1) by (rule mset_eq_setD)
  then have k: "keys (requirements_dict rs') = keys (requirements_dict rs)"
    by (simp add: keys_requirements_dict)
  have e: "emitted_names self env rs' = emitted_names self env rs"
    using s by (rule emitted_names_set_cong)
  have p: "policy_branch self env rs' = policy_branch self env rs"
    using k by (rule policy_branch_keys_cong)
  show ?thesis
  proof (cases "version_map self rs")
    case (Inl e)
    then have "version_map self rs' = Inl e"
      unfolding version_map_def by (auto split: if_splits sum.splits)
    then show ?thesis using Inl Inr by (simp add: generate_requirements_def)
  next
    case vm: (Inr vm)
    then obtain vm' where vm': "version_map self rs' = Inr vm'"
      using version_map_Inr_other by blast
    obtain lock where l: "(if include_dev self then lock_dev (pipfile_lock self)
                 else lock_default (pipfile_lock self)) = Inr lock"
      using version_map_Inr [OF vm] by blast
    have "get vm' n = get vm n" for n
      unfolding get_version_map [OF vm' l] get_version_map [OF vm l] g by (rule refl)
    then have "lookup_lines vm' (emitted_names self env rs) =
        lookup_lines vm (emitted_names self env rs)"
      by (intro lookup_lines_cong) simp
    then show ?thesis
      unfolding generate_requirements_run [OF Inr vm] generate_requirements_run [OF Inr vm'] p e
      by (simp split: sum.splits)
  qed
qed

lemma get_requirements_dict_named:
  assumes "n \<in> set ns" and "\<forall>m \<in> set ns. package_name (f m) = m"
  shows "get (requirements_dict (map f ns)) n = Some (f n)"
proof -
  have "map (\<lambda>r. (package_name r, r)) (map f ns) = map (\<lambda>n. (n, f n)) ns"
    using assms(2) by simp
  then have "rev (map (\<lambda>r. (package_name r, r)) (map f ns)) = map (\<lambda>n. (n, f n)) (rev ns)"
    by (simp add: rev_map)
  then have "get (requirements_dict (map f ns)) n = map_of (map (\<lambda>n. (n, f n)) (rev ns)) n"
    by (simp add: requirements_dict_def get_def map_of_dict_update_all)
  also have "\<dots> = Some (f n)"
    using assms(1) by (simp add: map_of_map_restrict)
  finally show ?thesis .
qed

section \<open>Facts about the string functions\<close>

lemma rstrip_newline_id: "newline \<notin> set s \<Longrightarrow> rstrip_newline s = s"
proof -
  assume a: "newline \<notin> set s"
  have "dropWhile (\<lambda>c. c = newline) (rev s) = rev s"
  proof (cases "rev s")
    case Nil
    then show ?thesis by simp
  next
    case (Cons c cs)
    then have "c \<in> set s" by (metis list.set_intros(1) set_rev)
    then have "c \<noteq> newline" using a by auto
    then show ?thesis using Cons by simp
  qed
  then show ?thesis by (simp add: rstrip_newline_def)
qed

lemma rstrip_newline_append:
  assumes "xs \<noteq> []" and "last xs \<noteq> newline"
  shows "rstrip_newline (xs @ ys) = xs @ rstrip_newline ys"
proof -
  obtain c cs where r: "rev xs = c # cs" using assms(1) by (cases "rev xs") auto
  then have "c = last xs" using assms(1) by (metis hd_rev list.sel(1))
  then have c: "c \<noteq> newline" using assms(2) by simp
  have "dropWhile (\<lambda>c. c = newline) (rev ys @ rev xs) =
      dropWhile (\<lambda>c. c = newline) (rev ys) @ rev xs"
    using r c by (simp add: dropWhile_append)
  then show ?thesis by (simp add: rstrip_newline_def)
qed

lemma split_first_no_sep:
  "CHR ''='' \<notin> set s \<Longrightarrow> split_first ''=='' s = s"
  by (induction s) auto

lemma split_first_at_sep:
  "CHR ''='' \<notin> set s \<Longrightarrow> split_first ''=='' (s @ ''=='' @ t) = s"
  by (induction s) auto

lemma prefix_before_sep:
  assumes "prefix p (n @ ''=='' @ v)" and "CHR ''='' \<notin> set p"
  shows "prefix p n"
proof -
  from assms(1) consider "prefix p n" | us where "p = n @ us" "prefix us (''=='' @ v)"
    unfolding prefix_append by blast
  then show ?thesis
  proof cases
    case 1
    then show ?thesis .
  next
    case 2
    then have "us = []" using assms(2) by (cases us) auto
    then show ?thesis using 2 by simp
  qed
qed

lemma git_parser_needs_plus:
  assumes "git_parser line \<noteq> None"
  shows "prefix ''git+'' line \<or> prefix ''-e git+'' line"
proof -
  let ?rest = "if prefix ''-e '' line then drop 3 line else line"
  have p: "prefix ''git+'' ?rest"
    using assms by (auto simp add: git_parser_def Let_def split: if_splits)
  show ?thesis
  proof (cases "prefix ''-e '' line")
    case True
    then obtain t where "line = ''-e '' @ t" by (auto simp add: prefix_def)
    then show ?thesis using p by simp
  next
    case False
    then show ?thesis using p by simp
  qed
qed

lemma git_parser_pinned:
  assumes "CHR ''='' \<notin> set name" and "CHR ''+'' \<notin> set name"
  shows "git_parser (name @ ''=='' @ v) = None"
proof (rule ccontr)
  assume "git_parser (name @ ''=='' @ v) \<noteq> None"
  then have "prefix ''git+'' (name @ ''=='' @ v) \<or> prefix ''-e git+'' (name @ ''=='' @ v)"
    by (rule git_parser_needs_plus)
  then have "prefix ''git+'' name \<or> prefix ''-e git+'' name"
    using prefix_before_sep [of "''git+''" name v] prefix_before_sep [of "''-e git+''" name v]
    by auto
  then have "CHR ''+'' \<in> set name" by (auto simp add: prefix_def)
  then show False using assms(2) by simp
qed

lemma git_parser_bare:
  assumes "CHR ''+'' \<notin> set name"
  shows "git_parser name = None"
proof (rule ccontr)
  assume "git_parser name \<noteq> None"
  then have "prefix ''git+'' name \<or> prefix ''-e git+'' name"
    by (rule git_parser_needs_plus)
  then have "CHR ''+'' \<in> set name" by (auto simp add: prefix_def)
  then show False using assms by simp
qed

lemma after_last_no_hash:
  "CHR ''#'' \<notin> set s \<Longrightarrow> after_last ''#egg='' s = None"
  by (induction s) auto

lemma after_last_egg:
  assumes "CHR ''#'' \<notin> set name"
  shows "after_last ''#egg='' (u @ ''#egg='' @ name) = Some name"
proof (induction u)
  case Nil
  have "after_last ''#egg='' (''egg='' @ name) = None"
    using assms by (intro after_last_no_hash) simp
  then show ?case by simp
next
  case (Cons c u)
  then show ?case by simp
qed

lemma chop_final_newline_id:
  "s \<noteq> [] \<Longrightarrow> last s \<noteq> newline \<Longrightarrow> chop_final_newline s = s"
  by (simp add: chop_final_newline_def)

lemma git_parser_vcs_line:
  assumes "pre = [] \<or> pre = ''-e ''"
    and "newline \<notin> set url" and "newline \<notin> set name" and "CHR ''#'' \<notin> set name"
  shows "git_parser (pre @ ''git+'' @ url @ ''#egg='' @ name) = Some name"
proof -
  let ?body = "url @ ''#egg='' @ name"
  have rest: "(if prefix ''-e '' (pre @ ''git+'' @ ?body)
               then drop 3 (pre @ ''git+'' @ ?body) else pre @ ''git+'' @ ?body) = ''git+'' @ ?body"
    using assms(1) by auto
  have l: "last ?body \<noteq> newline"
  proof (cases "name = []")
    case True
    then show ?thesis by (simp add: newline_def)
  next
    case False
    then have "last name \<in> set name" by (rule last_in_set)
    then have "last name \<noteq> newline" using assms(3) by auto
    then show ?thesis using False by simp
  qed
  have c: "chop_final_newline ?body = ?body"
    using l by (intro chop_final_newline_id) simp_all
  have n: "newline \<notin> set ?body" using assms(2,3) by (auto simp add: newline_def)
  have "git_parser (pre @ ''git+'' @ ?body) = after_last ''#egg='' ?body"
    unfolding git_parser_def rest using c n by (simp add: Let_def)
  also have "\<dots> = Some name" using assms(4) by (rule after_last_egg)
  finally show ?thesis .
qed

lemma after_last_Some:
  "after_last pat s = Some p \<Longrightarrow> \<exists>u. s = u @ pat @ p"
proof (induction s)
  case Nil
  then show ?case by simp
next
  case (Cons c cs)
  show ?case
  proof (cases "after_last pat cs")
    case None
    then have "prefix pat (c # cs)" and "p = drop (length pat) (c # cs)"
      using Cons.prems by (auto split: if_splits)
    then have "c # cs = [] @ pat @ p" by (auto simp add: prefix_def)
    then show ?thesis by blast
  next
    case (Some q)
    then have "q = p" using Cons.prems by simp
    then obtain u where "cs = u @ pat @ p" using Cons.IH Some by auto
    then have "c # cs = (c # u) @ pat @ p" by simp
    then show ?thesis by blast
  qed
qed

lemma after_last_occurs:
  "pat \<noteq> [] \<Longrightarrow> after_last pat (u @ pat @ q) \<noteq> None"
proof (induction u)
  case Nil
  then obtain c cs where "pat @ q = c # cs" by (cases pat) auto
  moreover have "prefix pat (pat @ q)" by simp
  ultimately show ?case by (auto split: option.splits)
next
  case (Cons c u)
  then show ?case by (auto split: option.splits)
qed

lemma after_last_shortest:
  assumes "pat \<noteq> []"
  shows "after_last pat s = Some p \<Longrightarrow> s = u @ pat @ q \<Longrightarrow> length p \<le> length q"
proof (induction s arbitrary: u)
  case Nil
  then show ?case by simp
next
  case (Cons c cs)
  show ?case
  proof (cases u)
    case Nil
    obtain w where "c # cs = w @ pat @ p" using Cons.prems(1) after_last_Some by blast
    then have "length (c # cs) = length w + length pat + length p" by simp
    moreover have "length (c # cs) = length pat + length q" using Cons.prems(2) Nil by simp
    ultimately show ?thesis by simp
  next
    case (Cons d u2)
    then have cs: "cs = u2 @ pat @ q" using Cons.prems(2) by simp
    then have "after_last pat cs \<noteq> None" using assms after_last_occurs by blast
    then have "after_last pat cs = Some p" using Cons.prems(1) by (auto split: option.splits)
    then show ?thesis using Cons.IH cs by blast
  qed
qed

lemma chop_final_newline_snoc: "chop_final_newline (xs @ [newline]) = xs"
  by (simp add: chop_final_newline_def)

lemma chop_final_newline_cases:
  "\<exists>tail. (tail = [] \<or> tail = [newline]) \<and> s = chop_final_newline s @ tail"
proof (cases "s \<noteq> [] \<and> last s = newline")
  case True
  then have "s = butlast s @ [newline]" by (metis append_butlast_last_id)
  then show ?thesis using True by (auto simp add: chop_final_newline_def)
next
  case False
  then show ?thesis by (auto simp add: chop_final_newline_def)
qed

lemma git_parser_Some_form:
  assumes "git_parser line = Some p"
  shows "vcs_form line p"
proof -
  define pre where "pre = (if prefix ''-e '' line then ''-e '' else [])"
  define rest where "rest = (if prefix ''-e '' line then drop 3 line else line)"
  have line: "line = pre @ rest"
    by (auto simp add: pre_def rest_def prefix_def)
  have g: "prefix ''git+'' rest" and n: "newline \<notin> set (chop_final_newline (drop 4 rest))"
    and a: "after_last ''#egg='' (chop_final_newline (drop 4 rest)) = Some p"
    using assms unfolding git_parser_def rest_def [symmetric]
    by (auto simp add: Let_def split: if_splits)
  obtain b where rest: "rest = ''git+'' @ b" using g by (auto simp add: prefix_def)
  obtain tail where tail: "tail = [] \<or> tail = [newline]" "b = chop_final_newline b @ tail"
    using chop_final_newline_cases by blast
  obtain u where u: "chop_final_newline b = u @ ''#egg='' @ p"
    using a rest after_last_Some by fastforce
  have "newline \<notin> set u" and "newline \<notin> set p" using n rest u by auto
  moreover have "line = pre @ ''git+'' @ u @ ''#egg='' @ p @ tail"
    using line rest tail(2) u by simp
  moreover have "pre = [] \<or> pre = ''-e ''" by (simp add: pre_def)
  ultimately show ?thesis unfolding vcs_form_def using tail(1) by blast
qed

lemma vcs_form_body:
  assumes "vcs_form line name"
  shows "\<exists>url. newline \<notin> set url \<and> git_parser line = after_last ''#egg='' (url @ ''#egg='' @ name)"
proof -
  obtain pre url tail where f: "pre = [] \<or> pre = ''-e ''" "tail = [] \<or> tail = [newline]"
    "line = pre @ ''git+'' @ url @ ''#egg='' @ name @ tail"
    "newline \<notin> set url" "newline \<notin> set name"
    using assms unfolding vcs_form_def by blast
  let ?body = "url @ ''#egg='' @ name"
  have rest: "(if prefix ''-e '' line then drop 3 line else line) = ''git+'' @ ?body @ tail"
    using f(1,3) by auto
  have l: "last ?body \<noteq> newline"
  proof (cases "name = []")
    case True
    then show ?thesis by (simp add: newline_def)
  next
    case False
    then have "last name \<in> set name" by (rule last_in_set)
    then have "last name \<noteq> newline" using f(5) by auto
    then show ?thesis using False by simp
  qed
  have c: "chop_final_newline (?body @ tail) = ?body"
  proof (cases "tail = []")
    case True
    then show ?thesis using l by (simp add: chop_final_newline_def)
  next
    case False
    then have "tail = [newline]" using f(2) by simp
    then show ?thesis using chop_final_newline_snoc [of ?body] by simp
  qed
  have n: "newline \<notin> set ?body" using f(4,5) by (auto simp add: newline_def)
  have "git_parser line = after_last ''#egg='' ?body"
    unfolding git_parser_def rest using c n by (simp add: Let_def)
  then show ?thesis using f(4) by blast
qed

lemma vcs_form_matches:
  assumes "vcs_form line name"
  shows "\<exists>p. git_parser line = Some p \<and> length p \<le> length name"
proof -
  obtain url where g: "git_parser line = after_last ''#egg='' (url @ ''#egg='' @ name)"
    using assms vcs_form_body by blast
  have "after_last ''#egg='' (url @ ''#egg='' @ name) \<noteq> None"
    by (rule after_last_occurs) simp
  then obtain p where p: "after_last ''#egg='' (url @ ''#egg='' @ name) = Some p" by auto
  have "length p \<le> length name"
    using after_last_shortest [OF _ p, of url name] by simp
  then show ?thesis using g p by simp
qed

lemma split_first_before_first:
  assumes "sep \<noteq> []"
  shows "before_first sep s (split_first sep s)"
proof (induction s)
  case Nil
  then show ?case using assms by (simp add: before_first_def)
next
  case (Cons c cs)
  show ?case
  proof (cases "prefix sep (c # cs)")
    case True
    then obtain b where b: "c # cs = [] @ sep @ b" by (auto simp add: prefix_def)
    have sf: "split_first sep (c # cs) = []" using True by simp
    show ?thesis unfolding before_first_def sf
    proof (intro conjI impI allI)
      show "\<exists>b. c # cs = [] @ sep @ b" using b by blast
    next
      fix a b assume "c # cs = a @ sep @ b"
      show "length ([] :: string) \<le> length a" by simp
    next
      assume "\<not> (\<exists>a b. c # cs = a @ sep @ b)"
      then show "[] = c # cs" using b by blast
    qed
  next
    case False
    have sf: "split_first sep (c # cs) = c # split_first sep cs" using False by simp
    have shift: "\<exists>a'. a = c # a' \<and> cs = a' @ sep @ b" if "c # cs = a @ sep @ b" for a b
    proof (cases a)
      case Nil
      then show ?thesis using that False by (auto simp add: prefix_def)
    next
      case (Cons d a')
      then show ?thesis using that by auto
    qed
    show ?thesis unfolding before_first_def sf
    proof (intro conjI impI allI)
      assume "\<exists>a b. c # cs = a @ sep @ b"
      then have "\<exists>a b. cs = a @ sep @ b" using shift by blast
      then obtain b where "cs = split_first sep cs @ sep @ b"
        using Cons.IH unfolding before_first_def by blast
      then have "c # cs = (c # split_first sep cs) @ sep @ b" by simp
      then show "\<exists>b. c # cs = (c # split_first sep cs) @ sep @ b" by blast
    next
      fix a b assume "c # cs = a @ sep @ b"
      then obtain a' where a: "a = c # a'" "cs = a' @ sep @ b" using shift by blast
      then have "length (split_first sep cs) \<le> length a'"
        using Cons.IH unfolding before_first_def by blast
      then show "length (c # split_first sep cs) \<le> length a" using a(1) by simp
    next
      assume n: "\<not> (\<exists>a b. c # cs = a @ sep @ b)"
      have "\<not> (\<exists>a b. cs = a @ sep @ b)"
      proof
        assume "\<exists>a b. cs = a @ sep @ b"
        then obtain a b where "cs = a @ sep @ b" by blast
        then have "c # cs = (c # a) @ sep @ b" by simp
        then show False using n by blast
      qed
      then have "split_first sep cs = cs" using Cons.IH unfolding before_first_def by blast
      then show "c # split_first sep cs = c # cs" by simp
    qed
  qed
qed

lemma requirement_line_parse:
  "requirement_line (parse_requirement_line l) = rstrip_newline l"
  by (simp add: parse_requirement_line_def split: option.splits)

lemma rstrip_newline_idem: "rstrip_newline (rstrip_newline s) = rstrip_newline s"
  by (simp add: rstrip_newline_def)

lemma map_fixed: "map g xs = xs \<Longrightarrow> \<forall>x \<in> set xs. g x = x"
  by (induction xs) auto

lemma newline_stripped_rstrip: "newline_stripped line (rstrip_newline line)"
proof -
  let ?P = "\<lambda>c. c = newline"
  let ?t = "rev (takeWhile ?P (rev line))"
  have "\<forall>y \<in> set ?t. y = newline" by (auto dest: set_takeWhileD)
  then have t: "replicate (length ?t) newline = ?t" by (rule replicate_length_same)
  have "line = rev (takeWhile ?P (rev line) @ dropWhile ?P (rev line))"
    by (simp only: takeWhile_dropWhile_id rev_rev_ident)
  also have "\<dots> = rev (dropWhile ?P (rev line)) @ ?t"
    by (rule rev_append)
  finally have "line = rstrip_newline line @ ?t"
    unfolding rstrip_newline_def .
  then have "line = rstrip_newline line @ replicate (length ?t) newline"
    by (simp only: t)
  then have a: "\<exists>k. line = rstrip_newline line @ replicate k newline" by (rule exI)
  have b: "rstrip_newline line = [] \<or> last (rstrip_newline line) \<noteq> newline"
  proof (cases "dropWhile ?P (rev line)")
    case Nil
    show ?thesis unfolding rstrip_newline_def Nil by simp
  next
    case (Cons c cs)
    have "\<not> ?P (hd (dropWhile ?P (rev line)))"
      by (rule hd_dropWhile) (simp only: Cons list.distinct not_False_eq_True)
    then have "c \<noteq> newline" unfolding Cons by simp
    then show ?thesis unfolding rstrip_newline_def Cons by simp
  qed
  show ?thesis unfolding newline_stripped_def using a b by blast
qed

lemma rstrip_newline_replicate: "rstrip_newline (replicate k newline) = []"
  by (simp add: rstrip_newline_def)

lemma newline_stripped_unique:
  assumes "newline_stripped line s"
  shows "s = rstrip_newline line"
proof -
  obtain k where k: "line = s @ replicate k newline" and l: "s = [] \<or> last s \<noteq> newline"
    using assms unfolding newline_stripped_def by blast
  show ?thesis
  proof (cases "s = []")
    case True
    then show ?thesis using k by (simp add: rstrip_newline_replicate)
  next
    case False
    then have "rstrip_newline (s @ replicate k newline) = s @ rstrip_newline (replicate k newline)"
      using l by (intro rstrip_newline_append) simp_all
    then show ?thesis using k by (simp add: rstrip_newline_replicate)
  qed
qed

lemma before_first_unique:
  assumes "before_first sep s r" and "before_first sep s r'"
  shows "r = r'"
proof (cases "\<exists>a b. s = a @ sep @ b")
  case True
  then obtain b b' where b: "s = r @ sep @ b" "s = r' @ sep @ b'"
    and m: "\<forall>a b. s = a @ sep @ b \<longrightarrow> length r \<le> length a"
      "\<forall>a b. s = a @ sep @ b \<longrightarrow> length r' \<le> length a"
    using assms unfolding before_first_def by blast
  have "length r \<le> length r'" using m(1) b(2) by blast
  moreover have "length r' \<le> length r" using m(2) b(1) by blast
  ultimately have "length r = length r'" by simp
  moreover have "r @ (sep @ b) = r' @ (sep @ b')" using b by simp
  ultimately show ?thesis by (metis append_eq_append_conv)
next
  case False
  then show ?thesis using assms unfolding before_first_def by simp
qed

lemma vcs_form_shortest_unique:
  assumes "git_parser line = Some p" and "vcs_form line name"
    and "\<forall>n. vcs_form line n \<longrightarrow> length name \<le> length n"
  shows "name = p"
proof -
  obtain url where g: "git_parser line = after_last ''#egg='' (url @ ''#egg='' @ name)"
    using assms(2) vcs_form_body by blast
  then have a: "after_last ''#egg='' (url @ ''#egg='' @ name) = Some p" using assms(1) by simp
  then obtain u where u: "url @ ''#egg='' @ name = u @ ''#egg='' @ p"
    using after_last_Some by blast
  have "length p \<le> length name"
    using after_last_shortest [OF _ a, of url name] by simp
  moreover have "length name \<le> length p"
    using assms(1,3) git_parser_Some_form by blast
  ultimately have "length name = length p" by simp
  moreover have "(url @ ''#egg='') @ name = (u @ ''#egg='') @ p" using u by simp
  ultimately show ?thesis by (metis append_eq_append_conv)
qed

lemma spec_package_name_parse:
  "spec_package_name line (package_name (parse_requirement_line line))"
proof (cases "git_parser line")
  case None
  then have "\<not> (\<exists>n. vcs_form line n)" using vcs_form_matches by fastforce
  moreover have "before_first ''=='' (rstrip_newline line) (split_first ''=='' (rstrip_newline line))"
    by (rule split_first_before_first) simp
  then have "\<exists>s. newline_stripped line s \<and>
      before_first ''=='' s (split_first ''=='' (rstrip_newline line))"
    using newline_stripped_rstrip by blast
  ultimately show ?thesis using None
    by (simp add: spec_package_name_def parse_requirement_line_def)
next
  case (Some p)
  then have f: "vcs_form line p" by (rule git_parser_Some_form)
  then have "newline \<notin> set p" unfolding vcs_form_def by auto
  then have n: "package_name (parse_requirement_line line) = p"
    using Some by (simp add: parse_requirement_line_def rstrip_newline_id)
  have "\<forall>n. vcs_form line n \<longrightarrow> length p \<le> length n"
    using vcs_form_matches Some by fastforce
  then show ?thesis using f unfolding spec_package_name_def n by auto
qed

lemma spec_package_name_unique:
  assumes "spec_package_name line name"
  shows "name = package_name (parse_requirement_line line)"
proof (cases "git_parser line")
  case None
  then have nv: "\<not> (\<exists>n. vcs_form line n)" using vcs_form_matches by fastforce
  then obtain s where s: "newline_stripped line s" "before_first ''=='' s name"
    using assms unfolding spec_package_name_def by blast
  then have "s = rstrip_newline line" using newline_stripped_unique by blast
  then have "before_first ''=='' (rstrip_newline line) name" using s(2) by simp
  moreover have "before_first ''=='' (rstrip_newline line) (split_first ''=='' (rstrip_newline line))"
    by (rule split_first_before_first) simp
  ultimately have "name = split_first ''=='' (rstrip_newline line)"
    by (rule before_first_unique)
  then show ?thesis using None by (simp add: parse_requirement_line_def)
next
  case (Some p)
  then have f: "vcs_form line p" by (rule git_parser_Some_form)
  then have v: "vcs_form line name" "\<forall>n. vcs_form line n \<longrightarrow> length name \<le> length n"
    using assms unfolding spec_package_name_def by blast+
  have "name = p" using Some v by (rule vcs_form_shortest_unique)
  moreover have "newline \<notin> set p" using f unfolding vcs_form_def by auto
  then have "package_name (parse_requirement_line line) = p"
    using Some by (simp add: parse_requirement_line_def rstrip_newline_id)
  ultimately show ?thesis by simp
qed

section \<open>The claims\<close>

text \<open>
  C1 (the code departs from the claim when \<open>include_dev\<close> is set). The claim has the lock
  mapping be the union of the default and the develop section then. The source overlays
  only \<open>pipfile_lock.dev\<close>, although \<open>environment\<close> takes \<open>all_packages\<close> in that mode. On the
  project of the scenario, run with \<open>include_dev\<close>, the lock pins \<open>a==1.0\<close> in its default
  section and the environment holds \<open>a\<close> and \<open>b\<close>, yet the version map keeps the existing
  \<open>a==0.9\<close>, it has no entry for the dependency \<open>c\<close>, and \<open>generate_requirements\<close> raises
  \<open>KeyError\<close>.
\<close>

theorem C1_dev_version_map_lacks_default_section:
  "lock_default (pipfile_lock scenario_processor)
     = Inr [(''a'', \<lparr>package_name = ''a'', requirement_line = ''a==1.0''\<rparr>),
            (''b'', \<lparr>package_name = ''b'', requirement_line = ''b==2.0''\<rparr>),
            (''c'', \<lparr>package_name = ''c'', requirement_line = ''c==3.0''\<rparr>)] \<and>
   environment (scenario_processor\<lparr>include_dev := True\<rparr>)
     = Inr [(''a'', ''*''), (''b'', ''*'')] \<and>
   version_map (scenario_processor\<lparr>include_dev := True\<rparr>)
          (map parse_requirement_line [''a==0.9'', ''b==2.0''])
     = Inr [(''a'', \<lparr>package_name = ''a'', requirement_line = ''a==0.9''\<rparr>),
            (''b'', \<lparr>package_name = ''b'', requirement_line = ''b==2.0''\<rparr>)] \<and>
   generate_requirements (scenario_processor\<lparr>include_dev := True\<rparr>)
          (map parse_requirement_line [''a==0.9'', ''b==2.0'']) = Inl (KeyError ''c'')"
  by code_simp

text \<open>
  C2 as stated fails: the expansion is one hop deep, and a dependency that the first run
  adds becomes a root of the second run when the Pipfile declares it too. With \<open>a\<close> and
  \<open>c\<close> declared, \<open>a\<close> depending on \<open>c\<close> and \<open>c\<close> on \<open>d\<close>, the existing list \<open>a==1.0\<close>
  gives the closure \<open>a, c\<close>, and the run on that output gives \<open>a, c, d\<close>.
\<close>

theorem C2_counterexample:
  "generate_requirements chain_processor [parse_requirement_line ''a==1.0'']
     = Inr [''a==1.0'', ''c==1.0''] \<and>
   emitted_names chain_processor [(''a'', ''*''), (''c'', ''*'')]
       [parse_requirement_line ''a==1.0''] = [''a'', ''c''] \<and>
   emitted_names chain_processor [(''a'', ''*''), (''c'', ''*'')]
       (map parse_requirement_line [''a==1.0'', ''c==1.0'']) = [''a'', ''c'', ''d''] \<and>
   generate_requirements chain_processor (map parse_requirement_line [''a==1.0'', ''c==1.0''])
     = Inr [''a==1.0'', ''c==1.0'', ''d==1.0'']"
  by code_simp

text \<open>
  C2, amended. In strict mode, let the first run return lines each of which parses back to
  the package name it was emitted for. Then the closure of the run on the parsed output
  contains the closure of the first run, and it is the same closure exactly when every
  package of the first closure that the environment declares has its graph dependencies
  in the first closure. When the closure is the same, the second run returns the same
  lines up to trailing newlines, and exactly the same lines when no line of the first run
  ends in a newline.
\<close>

theorem C2_second_run:
  assumes "\<not> in_place self" and "\<not> force self"
    and "generate_requirements self rs = Inr out"
    and "environment self = Inr env"
    and "map (\<lambda>l. package_name (parse_requirement_line l)) out = emitted_names self env rs"
  shows "full_dependencies self env rs
           \<subseteq> full_dependencies self env (map parse_requirement_line out) \<and>
     (full_dependencies self env (map parse_requirement_line out) = full_dependencies self env rs
        \<longleftrightarrow> (\<forall>n \<in> full_dependencies self env rs \<inter> keys env.
               set (case get (dependency_map self) n of Some deps \<Rightarrow> deps | None \<Rightarrow> [])
                 \<subseteq> full_dependencies self env rs)) \<and>
     (full_dependencies self env (map parse_requirement_line out) = full_dependencies self env rs
        \<longrightarrow> (\<exists>out2. generate_requirements self (map parse_requirement_line out) = Inr out2 \<and>
                 map rstrip_newline out2 = map rstrip_newline out) \<and>
            ((\<forall>l \<in> set out. rstrip_newline l = l) \<longrightarrow>
                 generate_requirements self (map parse_requirement_line out) = Inr out))"
proof -
  let ?ns = "emitted_names self env rs"
  let ?rs2 = "map parse_requirement_line out"
  let ?dm = "dependency_map self"
  let ?full1 = "full_dependencies self env rs"
  let ?full2 = "full_dependencies self env ?rs2"
  obtain vm where vm: "version_map self rs = Inr vm"
    and ll: "lookup_lines vm ?ns = Inr out"
    using assms(3,4) unfolding generate_requirements_Inr by auto
  let ?line = "\<lambda>n. requirement_line (the (get vm n))"
  have all: "\<forall>k \<in> set ?ns. get vm k \<noteq> None" and out: "out = map ?line ?ns"
    using ll unfolding lookup_lines_Inr by blast+
  have "map (\<lambda>n. package_name (parse_requirement_line (?line n))) ?ns = ?ns"
    using assms(5) unfolding out by (simp add: comp_def)
  then have names: "\<forall>n \<in> set ?ns. package_name (parse_requirement_line (?line n)) = n"
    by (rule map_fixed)
  have rs2: "?rs2 = map (\<lambda>n. parse_requirement_line (?line n)) ?ns"
    unfolding out by (simp add: comp_def)
  have "package_name ` set ?rs2 = set ?ns"
    unfolding rs2 using names by (auto simp add: image_image)
  then have keys2: "keys (requirements_dict ?rs2) = ?full1"
    by (simp add: keys_requirements_dict set_emitted_names)
  have root2: "root_requirements env ?rs2 = ?full1 \<inter> keys env"
    unfolding root_requirements_def keys2 by (rule refl)
  have full1: "?full1 = (\<Union>r \<in> root_requirements env rs. yielded ?dm r)"
    using assms(1) by (simp add: full_dependencies_expand)
  have full2: "?full2 = (\<Union>r \<in> ?full1 \<inter> keys env. yielded ?dm r)"
    using assms(1) by (simp add: full_dependencies_expand root2)
  have r12: "root_requirements env rs \<subseteq> ?full1 \<inter> keys env"
    using root_subset_full_dependencies [of env rs self]
    by (auto simp add: root_requirements_def)
  have sub: "?full1 \<subseteq> ?full2"
    unfolding full2 using r12 by (subst full1) blast
  have y: "yielded ?dm n \<subseteq> ?full1 \<longleftrightarrow>
      set (case get ?dm n of Some deps \<Rightarrow> deps | None \<Rightarrow> []) \<subseteq> ?full1"
    if "n \<in> ?full1" for n
    using that by (auto simp add: yielded_def split: option.splits)
  have iff: "?full2 = ?full1 \<longleftrightarrow>
      (\<forall>n \<in> ?full1 \<inter> keys env.
         set (case get ?dm n of Some deps \<Rightarrow> deps | None \<Rightarrow> []) \<subseteq> ?full1)"
  proof
    assume e: "?full2 = ?full1"
    show "\<forall>n \<in> ?full1 \<inter> keys env.
         set (case get ?dm n of Some deps \<Rightarrow> deps | None \<Rightarrow> []) \<subseteq> ?full1"
    proof
      fix n assume n: "n \<in> ?full1 \<inter> keys env"
      then have "yielded ?dm n \<subseteq> ?full2" unfolding full2 by blast
      then have "yielded ?dm n \<subseteq> ?full1" using e by simp
      then show "set (case get ?dm n of Some deps \<Rightarrow> deps | None \<Rightarrow> []) \<subseteq> ?full1"
        using y n by blast
    qed
  next
    assume c: "\<forall>n \<in> ?full1 \<inter> keys env.
         set (case get ?dm n of Some deps \<Rightarrow> deps | None \<Rightarrow> []) \<subseteq> ?full1"
    have "yielded ?dm n \<subseteq> ?full1" if "n \<in> ?full1 \<inter> keys env" for n
      using c y that by blast
    then have "?full2 \<subseteq> ?full1" unfolding full2 by blast
    then show "?full2 = ?full1" using sub by blast
  qed
  have lines: "(\<exists>out2. generate_requirements self ?rs2 = Inr out2 \<and>
                 map rstrip_newline out2 = map rstrip_newline out) \<and>
            ((\<forall>l \<in> set out. rstrip_newline l = l) \<longrightarrow>
                 generate_requirements self ?rs2 = Inr out)"
    if e: "?full2 = ?full1"
  proof -
    have en: "emitted_names self env ?rs2 = ?ns"
      unfolding emitted_names_def e by (rule refl)
    obtain vm2 where vm2: "version_map self ?rs2 = Inr vm2"
      using vm version_map_Inr_other by blast
    obtain lock where l: "(if include_dev self then lock_dev (pipfile_lock self)
                 else lock_default (pipfile_lock self)) = Inr lock"
      using version_map_Inr [OF vm] by blast
    have p: "policy_branch self env ?rs2 = Inr ()"
      by (rule policy_branch_no_missing) (simp add: keys2 e)
    let ?line2 = "\<lambda>n. requirement_line (the (get vm2 n))"
    have g2: "get vm2 n \<noteq> None \<and>
        (?line2 n = ?line n \<or> ?line2 n = rstrip_newline (?line n))" if n: "n \<in> set ?ns" for n
    proof (cases "get lock n")
      case (Some r)
      then have "get vm2 n = Some r" "get vm n = Some r"
        unfolding get_version_map [OF vm2 l] get_version_map [OF vm l] by simp_all
      then show ?thesis by simp
    next
      case None
      have "get (requirements_dict ?rs2) n = Some (parse_requirement_line (?line n))"
        unfolding rs2 using n names by (rule get_requirements_dict_named)
      then have "get vm2 n = Some (parse_requirement_line (?line n))"
        unfolding get_version_map [OF vm2 l] None by simp
      then show ?thesis by (simp add: requirement_line_parse)
    qed
    then have "lookup_lines vm2 ?ns = Inr (map ?line2 ?ns)"
      unfolding lookup_lines_Inr by simp
    then have run2: "generate_requirements self ?rs2 = Inr (map ?line2 ?ns)"
      unfolding generate_requirements_run [OF assms(4) vm2] p en by simp
    have "rstrip_newline (?line2 n) = rstrip_newline (?line n)" if "n \<in> set ?ns" for n
      using g2 [OF that] by (auto simp add: rstrip_newline_idem)
    then have "map rstrip_newline (map ?line2 ?ns) = map rstrip_newline out"
      unfolding out by simp
    then have first: "\<exists>out2. generate_requirements self ?rs2 = Inr out2 \<and>
                 map rstrip_newline out2 = map rstrip_newline out"
      using run2 by blast
    have second: "generate_requirements self ?rs2 = Inr out"
      if s: "\<forall>l \<in> set out. rstrip_newline l = l"
    proof -
      have "?line2 n = ?line n" if n: "n \<in> set ?ns" for n
      proof -
        have "?line n \<in> set out" unfolding out using n by simp
        then have "rstrip_newline (?line n) = ?line n" using s by blast
        then show ?thesis using g2 [OF n] by auto
      qed
      then have "map ?line2 ?ns = out" unfolding out by simp
      then show ?thesis using run2 by simp
    qed
    show ?thesis using first second by blast
  qed
  show ?thesis using sub iff lines by blast
qed

theorem C2_second_run_witness:
  "generate_requirements flat_processor (map parse_requirement_line [''a==1.0'', ''c==1.0''])
    = Inr [''a==1.0'', ''c==1.0'']"
proof -
  let ?rs = "[parse_requirement_line ''a==1.0'']"
  let ?out = "[''a==1.0'', ''c==1.0'']"
  let ?env = "[(''a'', ''*''), (''c'', ''*'')]"
  have f: "\<not> in_place flat_processor" "\<not> force flat_processor"
    by (simp_all add: flat_processor_def chain_processor_def)
  have g: "generate_requirements flat_processor ?rs = Inr ?out" by code_simp
  have e: "environment flat_processor = Inr ?env" by code_simp
  have p: "map (\<lambda>l. package_name (parse_requirement_line l)) ?out
      = emitted_names flat_processor ?env ?rs" by code_simp
  have d: "\<forall>n \<in> full_dependencies flat_processor ?env ?rs \<inter> keys ?env.
      set (case get (dependency_map flat_processor) n of Some deps \<Rightarrow> deps | None \<Rightarrow> [])
        \<subseteq> full_dependencies flat_processor ?env ?rs" by code_simp
  have s: "\<forall>l \<in> set ?out. rstrip_newline l = l" by code_simp
  show ?thesis using C2_second_run [OF f g e p] d s by blast
qed

text \<open>
  C3. With \<open>in_place\<close> set and \<open>force\<close> unset the closure contains the package name of every
  existing requirement, and the version map has an entry for each of them. The function
  returns lines whenever the environment and the version map can be read and the version
  map has an entry for every name of the closure. The lines it returns hold the line of
  every existing package, and a package that neither section of the lock pins keeps the
  line it had in the existing list (the line of the last entry of that name).
\<close>

theorem C3_in_place_keeps_existing:
  assumes "in_place self" and "\<not> force self"
  shows "package_name ` set rs \<subseteq> full_dependencies self env rs \<and>
     (version_map self rs = Inr vm \<longrightarrow>
        (\<forall>r \<in> set rs. get vm (package_name r) \<noteq> None)) \<and>
     (environment self = Inr env \<and> version_map self rs = Inr vm \<and>
      (\<forall>n \<in> full_dependencies self env rs. get vm n \<noteq> None) \<longrightarrow>
        (\<exists>ls. generate_requirements self rs = Inr ls)) \<and>
     (generate_requirements self rs = Inr out \<longrightarrow>
        (\<exists>vm. version_map self rs = Inr vm \<and>
           (\<forall>r \<in> set rs. \<exists>r'. get vm (package_name r) = Some r' \<and>
              requirement_line r' \<in> set out)) \<and>
        (\<forall>n r. get (requirements_dict rs) n = Some r \<and>
            (\<forall>d. lock_default (pipfile_lock self) = Inr d \<longrightarrow> n \<notin> keys d) \<and>
            (\<forall>d. lock_dev (pipfile_lock self) = Inr d \<longrightarrow> n \<notin> keys d) \<longrightarrow>
            r \<in> set rs \<and> package_name r = n \<and> requirement_line r \<in> set out))"
proof (intro conjI impI)
  show "package_name ` set rs \<subseteq> full_dependencies self env rs"
    using assms by (simp add: full_dependencies_expand keys_requirements_dict)
next
  assume vm: "version_map self rs = Inr vm"
  obtain lock where l: "(if include_dev self then lock_dev (pipfile_lock self)
                 else lock_default (pipfile_lock self)) = Inr lock"
    using version_map_Inr [OF vm] by blast
  show "\<forall>r \<in> set rs. get vm (package_name r) \<noteq> None"
  proof
    fix r assume "r \<in> set rs"
    then have "package_name r \<in> keys (requirements_dict rs)"
      by (simp add: keys_requirements_dict)
    then have "get (requirements_dict rs) (package_name r) \<noteq> None"
      by (auto simp add: keys_dom)
    then show "get vm (package_name r) \<noteq> None"
      unfolding get_version_map [OF vm l] by (simp split: option.splits)
  qed
next
  assume a: "environment self = Inr env \<and> version_map self rs = Inr vm \<and>
      (\<forall>n \<in> full_dependencies self env rs. get vm n \<noteq> None)"
  then have "\<forall>n \<in> set (emitted_names self env rs). get vm n \<noteq> None"
    by (simp add: set_emitted_names)
  then have "lookup_lines vm (emitted_names self env rs) =
      Inr (map (\<lambda>n. requirement_line (the (get vm n))) (emitted_names self env rs))"
    unfolding lookup_lines_Inr by simp
  moreover have "policy_branch self env rs = Inr ()"
    using assms by (rule policy_branch_additive)
  ultimately show "\<exists>ls. generate_requirements self rs = Inr ls"
    unfolding generate_requirements_Inr using a by blast
next
  assume r: "generate_requirements self rs = Inr out"
  then obtain env' vm' where e: "environment self = Inr env'" and vm: "version_map self rs = Inr vm'"
    and ll: "lookup_lines vm' (emitted_names self env' rs) = Inr out"
    unfolding generate_requirements_Inr by blast
  let ?ns = "emitted_names self env' rs"
  have sub: "package_name ` set rs \<subseteq> full_dependencies self env' rs"
    using assms by (simp add: full_dependencies_expand keys_requirements_dict)
  have all: "\<forall>k \<in> set ?ns. get vm' k \<noteq> None"
    and out: "out = map (\<lambda>n. requirement_line (the (get vm' n))) ?ns"
    using ll unfolding lookup_lines_Inr by blast+
  obtain lock where l: "(if include_dev self then lock_dev (pipfile_lock self)
                 else lock_default (pipfile_lock self)) = Inr lock"
    using version_map_Inr [OF vm] by blast
  have line: "requirement_line r' \<in> set out"
    if "k \<in> package_name ` set rs" "get vm' k = Some r'" for k r'
  proof -
    have "k \<in> set ?ns" using that(1) sub by (auto simp add: set_emitted_names)
    then have "requirement_line (the (get vm' k)) \<in> set out" using out by simp
    then show ?thesis using that(2) by simp
  qed
  have "\<forall>r \<in> set rs. \<exists>r'. get vm' (package_name r) = Some r' \<and> requirement_line r' \<in> set out"
  proof
    fix r assume "r \<in> set rs"
    then have m: "package_name r \<in> package_name ` set rs" by simp
    then have "package_name r \<in> set ?ns" using sub by (auto simp add: set_emitted_names)
    then obtain r' where "get vm' (package_name r) = Some r'" using all by auto
    then show "\<exists>r'. get vm' (package_name r) = Some r' \<and> requirement_line r' \<in> set out"
      using line [OF m] by blast
  qed
  then show "\<exists>vm. version_map self rs = Inr vm \<and>
           (\<forall>r \<in> set rs. \<exists>r'. get vm (package_name r) = Some r' \<and>
              requirement_line r' \<in> set out)"
    using vm by blast
  show "\<forall>n r. get (requirements_dict rs) n = Some r \<and>
            (\<forall>d. lock_default (pipfile_lock self) = Inr d \<longrightarrow> n \<notin> keys d) \<and>
            (\<forall>d. lock_dev (pipfile_lock self) = Inr d \<longrightarrow> n \<notin> keys d) \<longrightarrow>
            r \<in> set rs \<and> package_name r = n \<and> requirement_line r \<in> set out"
  proof (intro allI impI)
    fix n r
    assume a: "get (requirements_dict rs) n = Some r \<and>
            (\<forall>d. lock_default (pipfile_lock self) = Inr d \<longrightarrow> n \<notin> keys d) \<and>
            (\<forall>d. lock_dev (pipfile_lock self) = Inr d \<longrightarrow> n \<notin> keys d)"
    then have mem: "r \<in> set rs \<and> package_name r = n"
      using get_requirements_dict_mem by blast
    have "n \<notin> keys lock" using a l by (auto split: if_splits)
    then have "get lock n = None" by (auto simp add: keys_dom)
    then have "get vm' n = Some r" using a unfolding get_version_map [OF vm l] by simp
    moreover have "n \<in> package_name ` set rs" using mem by auto
    ultimately have "requirement_line r \<in> set out" using line by blast
    then show "r \<in> set rs \<and> package_name r = n \<and> requirement_line r \<in> set out"
      using mem by simp
  qed
qed

theorem C3_in_place_keeps_existing_witness:
  "generate_requirements (scenario_processor\<lparr>in_place := True\<rparr>)
      (map parse_requirement_line [''a==0.9'', ''b==2.0'', ''x==9.9''])
    = Inr [''a==1.0'', ''b==2.0'', ''c==3.0'', ''x==9.9''] \<and>
   ''x==9.9'' \<in> set [''a==1.0'', ''b==2.0'', ''c==3.0'', ''x==9.9'']"
proof -
  let ?self = "scenario_processor\<lparr>in_place := True\<rparr>"
  let ?rs = "map parse_requirement_line [''a==0.9'', ''b==2.0'', ''x==9.9'']"
  let ?out = "[''a==1.0'', ''b==2.0'', ''c==3.0'', ''x==9.9'']"
  have f: "in_place ?self" "\<not> force ?self" by (simp_all add: scenario_processor_def)
  have g: "generate_requirements ?self ?rs = Inr ?out" by code_simp
  have x: "get (requirements_dict ?rs) ''x'' = Some (parse_requirement_line ''x==9.9'')"
    by code_simp
  have d: "lock_default (pipfile_lock ?self)
      = Inr [(''a'', \<lparr>package_name = ''a'', requirement_line = ''a==1.0''\<rparr>),
            (''b'', \<lparr>package_name = ''b'', requirement_line = ''b==2.0''\<rparr>),
            (''c'', \<lparr>package_name = ''c'', requirement_line = ''c==3.0''\<rparr>)]" by code_simp
  have v: "lock_dev (pipfile_lock ?self) = Inr []" by code_simp
  have nd: "\<forall>d. lock_default (pipfile_lock ?self) = Inr d \<longrightarrow> ''x'' \<notin> keys d"
    unfolding d by (simp add: keys_def)
  have nv: "\<forall>d. lock_dev (pipfile_lock ?self) = Inr d \<longrightarrow> ''x'' \<notin> keys d"
    unfolding v by (simp add: keys_def)
  have "requirement_line (parse_requirement_line ''x==9.9'') \<in> set ?out"
    using C3_in_place_keeps_existing [OF f, of ?rs _ _ ?out] g x nd nv by blast
  moreover have "requirement_line (parse_requirement_line ''x==9.9'') = ''x==9.9''" by code_simp
  ultimately show ?thesis using g by simp
qed

text \<open>
  C4. With \<open>force\<close> set or \<open>in_place\<close> unset, the returned lines are those of the emitted
  names, and every emitted name is a root requirement (existing and declared in the
  environment), a dependency the graph lists for a root requirement, or a name declared in
  the environment.
\<close>

theorem C4_pruning:
  assumes "force self \<or> \<not> in_place self"
    and "generate_requirements self rs = Inr out"
  shows "\<exists>env vm. environment self = Inr env \<and> version_map self rs = Inr vm \<and>
     out = map (\<lambda>n. requirement_line (the (get vm n))) (emitted_names self env rs) \<and>
     (\<forall>n \<in> set (emitted_names self env rs).
        n \<in> root_requirements env rs \<or>
        (\<exists>r \<in> root_requirements env rs. \<exists>deps.
            get (dependency_map self) r = Some deps \<and> n \<in> set deps) \<or>
        n \<in> keys env)"
proof -
  obtain env vm where e: "environment self = Inr env" and vm: "version_map self rs = Inr vm"
    and ll: "lookup_lines vm (emitted_names self env rs) = Inr out"
    using assms(2) unfolding generate_requirements_Inr by blast
  have out: "out = map (\<lambda>n. requirement_line (the (get vm n))) (emitted_names self env rs)"
    using ll unfolding lookup_lines_Inr by blast
  have full: "full_dependencies self env rs =
      (\<Union>r \<in> root_requirements env rs. yielded (dependency_map self) r)"
    using assms(1) by (auto simp add: full_dependencies_expand)
  have "\<forall>n \<in> set (emitted_names self env rs).
        n \<in> root_requirements env rs \<or>
        (\<exists>r \<in> root_requirements env rs. \<exists>deps.
            get (dependency_map self) r = Some deps \<and> n \<in> set deps) \<or>
        n \<in> keys env"
  proof
    fix n assume "n \<in> set (emitted_names self env rs)"
    then obtain r where r: "r \<in> root_requirements env rs" "n \<in> yielded (dependency_map self) r"
      using full by (auto simp add: set_emitted_names)
    show "n \<in> root_requirements env rs \<or>
        (\<exists>r \<in> root_requirements env rs. \<exists>deps.
            get (dependency_map self) r = Some deps \<and> n \<in> set deps) \<or>
        n \<in> keys env"
    proof (cases "n = r")
      case True
      then show ?thesis using r by simp
    next
      case False
      then obtain deps where "get (dependency_map self) r = Some deps" "n \<in> set deps"
        using r(2) by (auto simp add: yielded_def split: option.splits)
      then show ?thesis using r(1) by blast
    qed
  qed
  then show ?thesis using e vm out by blast
qed

theorem C4_pruning_witness:
  "map (\<lambda>n. requirement_line (the (get
          [(''a'', \<lparr>package_name = ''a'', requirement_line = ''a==1.0''\<rparr>),
           (''b'', \<lparr>package_name = ''b'', requirement_line = ''b==2.0''\<rparr>),
           (''x'', \<lparr>package_name = ''x'', requirement_line = ''x==9.9''\<rparr>),
           (''c'', \<lparr>package_name = ''c'', requirement_line = ''c==3.0''\<rparr>)] n)))
     (emitted_names scenario_processor [(''a'', ''*''), (''b'', ''*'')]
        (map parse_requirement_line [''a==0.9'', ''b==2.0'', ''x==9.9'']))
   = [''a==1.0'', ''b==2.0'', ''c==3.0'']"
proof -
  let ?rs = "map parse_requirement_line [''a==0.9'', ''b==2.0'', ''x==9.9'']"
  have f: "force scenario_processor \<or> \<not> in_place scenario_processor"
    by (simp add: scenario_processor_def)
  have g: "generate_requirements scenario_processor ?rs = Inr [''a==1.0'', ''b==2.0'', ''c==3.0'']"
    by code_simp
  have e: "environment scenario_processor = Inr [(''a'', ''*''), (''b'', ''*'')]" by code_simp
  have v: "version_map scenario_processor ?rs =
     Inr [(''a'', \<lparr>package_name = ''a'', requirement_line = ''a==1.0''\<rparr>),
          (''b'', \<lparr>package_name = ''b'', requirement_line = ''b==2.0''\<rparr>),
          (''x'', \<lparr>package_name = ''x'', requirement_line = ''x==9.9''\<rparr>),
          (''c'', \<lparr>package_name = ''c'', requirement_line = ''c==3.0''\<rparr>)]" by code_simp
  from C4_pruning [OF f g] obtain env vm where
    "environment scenario_processor = Inr env" "version_map scenario_processor ?rs = Inr vm"
    "[''a==1.0'', ''b==2.0'', ''c==3.0''] =
       map (\<lambda>n. requirement_line (the (get vm n))) (emitted_names scenario_processor env ?rs)"
    by (elim exE conjE) (rule that)
  then show ?thesis unfolding e v by simp
qed

text \<open>
  C5. In every mode the lines are returned in the order of their package names, which are
  strictly ascending in the lexicographic order of strings. The names and their order depend
  only on the set of existing requirements; the whole result is the same for every
  permutation of an existing list without repeated names and for every permutation of a
  graph without repeated packages. The set that \<open>generate_dependencies\<close> yields does not
  depend on the order in which the root requirements are iterated.
\<close>

theorem C5_sorted_by_name:
  "sorted (emitted_names self env rs) \<and> distinct (emitted_names self env rs) \<and>
   (generate_requirements self rs = Inr out \<longrightarrow>
      (\<exists>env vm. environment self = Inr env \<and> version_map self rs = Inr vm \<and>
         out = map (\<lambda>n. requirement_line (the (get vm n))) (emitted_names self env rs))) \<and>
   (set rs' = set rs \<longrightarrow> emitted_names self env rs' = emitted_names self env rs) \<and>
   (mset rs' = mset rs \<and> distinct (map package_name rs) \<longrightarrow>
      generate_requirements self rs' = generate_requirements self rs) \<and>
   (mset g' = mset (graph self) \<and> distinct (map package (graph self)) \<longrightarrow>
      generate_requirements (self\<lparr>graph := g'\<rparr>) rs = generate_requirements self rs) \<and>
   (set xs = set ys \<longrightarrow>
      set (generate_dependencies dm xs) = set (generate_dependencies dm ys))"
proof (intro conjI impI)
  assume "set xs = set ys"
  then show "set (generate_dependencies dm xs) = set (generate_dependencies dm ys)"
    by (simp add: set_generate_dependencies)
next
  show "sorted (emitted_names self env rs)" by (rule sorted_emitted_names)
  show "distinct (emitted_names self env rs)" by (rule distinct_emitted_names)
next
  assume "generate_requirements self rs = Inr out"
  then obtain env vm where "environment self = Inr env" "version_map self rs = Inr vm"
    "lookup_lines vm (emitted_names self env rs) = Inr out"
    unfolding generate_requirements_Inr by blast
  then show "\<exists>env vm. environment self = Inr env \<and> version_map self rs = Inr vm \<and>
         out = map (\<lambda>n. requirement_line (the (get vm n))) (emitted_names self env rs)"
    unfolding lookup_lines_Inr by blast
next
  assume "set rs' = set rs"
  then show "emitted_names self env rs' = emitted_names self env rs"
    by (rule emitted_names_set_cong)
next
  assume "mset rs' = mset rs \<and> distinct (map package_name rs)"
  then show "generate_requirements self rs' = generate_requirements self rs"
    using generate_requirements_perm by blast
next
  assume "mset g' = mset (graph self) \<and> distinct (map package (graph self))"
  then show "generate_requirements (self\<lparr>graph := g'\<rparr>) rs = generate_requirements self rs"
    using generate_requirements_graph_perm by blast
qed

theorem C5_sorted_by_name_witness:
  "generate_requirements scenario_processor (map parse_requirement_line [''b==2.0'', ''a==0.9''])
     = Inr [''a==1.0'', ''b==2.0'', ''c==3.0''] \<and>
   emitted_names scenario_processor [(''a'', ''*''), (''b'', ''*'')]
       (map parse_requirement_line [''b==2.0'', ''a==0.9''])
     = [''a'', ''b'', ''c'']"
proof -
  let ?rs = "map parse_requirement_line [''a==0.9'', ''b==2.0'']"
  let ?rs' = "map parse_requirement_line [''b==2.0'', ''a==0.9'']"
  let ?env = "[(''a'', ''*''), (''b'', ''*'')]"
  have "mset ?rs' = mset ?rs" by (simp add: add_mset_commute)
  moreover have "distinct (map package_name ?rs)" by code_simp
  ultimately have p: "mset ?rs' = mset ?rs \<and> distinct (map package_name ?rs)" by simp
  have s: "set ?rs' = set ?rs" by (simp add: insert_commute)
  have g: "generate_requirements scenario_processor ?rs = Inr [''a==1.0'', ''b==2.0'', ''c==3.0'']"
    by code_simp
  have n: "emitted_names scenario_processor ?env ?rs = [''a'', ''b'', ''c'']" by code_simp
  have "generate_requirements scenario_processor ?rs' = generate_requirements scenario_processor ?rs"
    using C5_sorted_by_name [where self = scenario_processor and rs = ?rs and rs' = ?rs'
        and g' = "graph scenario_processor"] p by blast
  moreover have "emitted_names scenario_processor ?env ?rs'
      = emitted_names scenario_processor ?env ?rs"
    using C5_sorted_by_name [where self = scenario_processor and rs = ?rs and rs' = ?rs'
        and env = ?env and g' = "graph scenario_processor"] s by blast
  ultimately show ?thesis using g n by (intro conjI) (erule trans, assumption)+
qed

text \<open>
  C6. For every line, the package name that \<open>parse_requirement_line\<close> assigns is the one, and
  the only one, that the specification gives: the egg fragment when the line has the VCS
  form, and otherwise the text before the first \<^verbatim>\<open>==\<close> of the line without its trailing
  newlines (all of it when there is no \<^verbatim>\<open>==\<close>). The requirement line it stores is the line
  without its trailing newlines. The two lines of the specification parse to \<open>pkg\<close> and
  \<open>foo\<close>.
\<close>

theorem C6_parse_requirement_line:
  "(spec_package_name line name \<longleftrightarrow> name = package_name (parse_requirement_line line)) \<and>
   (newline_stripped line s \<longleftrightarrow> s = requirement_line (parse_requirement_line line)) \<and>
   package_name (parse_requirement_line ''-e git+https://x/y.git@abc#egg=pkg'') = ''pkg'' \<and>
   package_name (parse_requirement_line ''foo==1.2.3'') = ''foo''"
proof (intro conjI)
  show "spec_package_name line name \<longleftrightarrow> name = package_name (parse_requirement_line line)"
    using spec_package_name_parse spec_package_name_unique by blast
  show "newline_stripped line s \<longleftrightarrow> s = requirement_line (parse_requirement_line line)"
    unfolding requirement_line_parse
    using newline_stripped_rstrip newline_stripped_unique by blast
  show "package_name (parse_requirement_line ''-e git+https://x/y.git@abc#egg=pkg'') = ''pkg''"
    by code_simp
  show "package_name (parse_requirement_line ''foo==1.2.3'') = ''foo''"
    by code_simp
qed

theorem C6_parse_requirement_line_witness:
  "package_name (parse_requirement_line ''foo\<newline>'') = ''foo'' \<and>
   requirement_line (parse_requirement_line ''foo\<newline>'') = ''foo''"
proof -
  have n: "git_parser ''foo\<newline>'' = None" by code_simp
  have nv: "\<not> (\<exists>n. vcs_form ''foo\<newline>'' n)" using n vcs_form_matches by fastforce
  have "''foo\<newline>'' = ''foo'' @ replicate 1 newline" by (simp add: newline_def)
  then have "\<exists>k. ''foo\<newline>'' = ''foo'' @ replicate k newline" by (rule exI)
  then have st: "newline_stripped ''foo\<newline>'' ''foo''"
    unfolding newline_stripped_def by (simp add: newline_def)
  have "\<not> (\<exists>a b. ''foo'' = a @ ''=='' @ b)"
  proof
    assume "\<exists>a b. ''foo'' = a @ ''=='' @ b"
    then obtain a b where "''foo'' = a @ ''=='' @ b" by blast
    then have "set ''foo'' = set (a @ ''=='' @ b)" by (rule arg_cong)
    then show False by auto
  qed
  then have bf: "before_first ''=='' ''foo'' ''foo''" unfolding before_first_def by simp
  have "spec_package_name ''foo\<newline>'' ''foo''"
    unfolding spec_package_name_def using nv st bf by blast
  then have "''foo'' = package_name (parse_requirement_line ''foo\<newline>'')"
    using C6_parse_requirement_line [of "''foo\<newline>''" "''foo''" "''foo''"] by blast
  moreover have "''foo'' = requirement_line (parse_requirement_line ''foo\<newline>'')"
    using C6_parse_requirement_line [of "''foo\<newline>''" "''foo''" "''foo''"] st by blast
  ultimately show ?thesis by simp
qed

text \<open>
  C7 as stated fails on an entry whose \<open>version\<close> key is present but empty: the source tests
  the value for truth, and the line is built from the \<open>git\<close> key, not as name and version.
\<close>

theorem C7_counterexample:
  "version empty_version_entry = Some [] \<and>
   requirement_line (from_data ''foo'' empty_version_entry) = ''git+https://x#egg=foo''"
  by code_simp

text \<open>
  C7, amended. The line follows the precedence of the claim with "present" read as
  "present and not empty": name and version spec for a non-empty \<open>version\<close>; otherwise the
  VCS form for a non-empty \<open>git\<close>, with the prefix \<^verbatim>\<open>-e \<close> exactly when \<open>editable\<close> is true and the
  suffix \<^verbatim>\<open>@ref\<close> exactly when \<open>ref\<close> is non-empty; otherwise the bare name. The package name
  is always the given name, and the two entries of the specification give \<^verbatim>\<open>foo==2.0\<close> and
  \<^verbatim>\<open>-e git+https://x@main#egg=bar\<close>.
\<close>

theorem C7_from_data_precedence:
  "requirement_line (from_data name e) =
     (if version e \<noteq> None \<and> version e \<noteq> Some [] then name @ the (version e)
      else if git e \<noteq> None \<and> git e \<noteq> Some [] then
        (if editable e = Some True then ''-e '' else []) @ ''git+'' @ the (git e) @
        (if ref e \<noteq> None \<and> ref e \<noteq> Some [] then ''@'' @ the (ref e) else []) @
        ''#egg='' @ name
      else name) \<and>
   package_name (from_data name e) = name \<and>
   requirement_line (from_data ''foo'' (entry_version ''==2.0'')) = ''foo==2.0'' \<and>
   requirement_line (from_data ''bar'' editable_git_entry) = ''-e git+https://x@main#egg=bar''"
proof (intro conjI)
  show "requirement_line (from_data name e) =
     (if version e \<noteq> None \<and> version e \<noteq> Some [] then name @ the (version e)
      else if git e \<noteq> None \<and> git e \<noteq> Some [] then
        (if editable e = Some True then ''-e '' else []) @ ''git+'' @ the (git e) @
        (if ref e \<noteq> None \<and> ref e \<noteq> Some [] then ''@'' @ the (ref e) else []) @
        ''#egg='' @ name
      else name)"
    by (cases "version e"; cases "git e"; cases "ref e") (simp_all add: from_data_def)
  show "package_name (from_data name e) = name"
    by (simp add: from_data_def Let_def split: option.splits)
  show "requirement_line (from_data ''foo'' (entry_version ''==2.0'')) = ''foo==2.0''"
    by code_simp
  show "requirement_line (from_data ''bar'' editable_git_entry) = ''-e git+https://x@main#egg=bar''"
    by code_simp
qed

text \<open>
  C8 as stated fails on a version spec that does not begin with \<^verbatim>\<open>==\<close>: the line
  \<^verbatim>\<open>foo>=2.0\<close> built for \<open>foo\<close> parses back to the name \<^verbatim>\<open>foo>=2.0\<close>.
\<close>

theorem C8_counterexample:
  "package_name (parse_requirement_line
     (requirement_line (from_data ''foo'' (entry_version ''>=2.0'')))) = ''foo>=2.0''"
  by code_simp

text \<open>
  C8, amended. When the name holds none of the characters \<^verbatim>\<open>=\<close>, \<^verbatim>\<open>+\<close>, \<^verbatim>\<open>#\<close> and
  newline, a non-empty version spec begins with \<^verbatim>\<open>==\<close>, and the git URL and ref hold no
  newline, parsing the line built from the entry gives back the name; a git entry goes
  through the egg fragment also when its URL or ref holds \<^verbatim>\<open>==\<close>.
\<close>

theorem C8_name_recovered_from_line:
  assumes "CHR ''='' \<notin> set name" and "CHR ''+'' \<notin> set name"
    and "CHR ''#'' \<notin> set name" and "newline \<notin> set name"
    and "\<forall>v. truthy (version e) = Some v \<longrightarrow> prefix ''=='' v"
    and "\<forall>u. git e = Some u \<longrightarrow> newline \<notin> set u"
    and "\<forall>r. ref e = Some r \<longrightarrow> newline \<notin> set r"
  shows "package_name (parse_requirement_line (requirement_line (from_data name e))) = name"
proof (cases "truthy (version e)")
  case (Some v)
  then obtain w where v: "v = ''=='' @ w" using assms(5) by (auto simp add: prefix_def)
  have line: "requirement_line (from_data name e) = name @ ''=='' @ w"
    using Some v by (simp add: from_data_def)
  have g: "git_parser (name @ ''=='' @ w) = None"
    using assms(1,2) by (rule git_parser_pinned)
  have "rstrip_newline (name @ ''=='' @ w) = (name @ ''=='') @ rstrip_newline w"
    using rstrip_newline_append [of "name @ ''==''" w] by (simp add: newline_def)
  then have "split_first ''=='' (rstrip_newline (name @ ''=='' @ w)) = name"
    using assms(1) split_first_at_sep [of name "rstrip_newline w"] by simp
  then show ?thesis using g by (simp add: line parse_requirement_line_def)
next
  case None
  note no_version = None
  show ?thesis
  proof (cases "truthy (git e)")
    case (Some u)
    then have gu: "git e = Some u" by (cases "git e") (auto split: if_splits)
    define pre where "pre = (if editable e = Some True then ''-e '' else [])"
    define rf where "rf = (case truthy (ref e) of Some git_ref \<Rightarrow> ''@'' @ git_ref | None \<Rightarrow> [])"
    have line: "requirement_line (from_data name e) = pre @ ''git+'' @ (u @ rf) @ ''#egg='' @ name"
      using no_version Some by (simp add: from_data_def pre_def rf_def)
    have "newline \<notin> set rf"
    proof (cases "truthy (ref e)")
      case None
      then show ?thesis by (simp add: rf_def)
    next
      case (Some r)
      then have "ref e = Some r" by (cases "ref e") (auto split: if_splits)
      then have "newline \<notin> set r" using assms(7) by simp
      then show ?thesis using Some by (simp add: rf_def newline_def)
    qed
    moreover have "newline \<notin> set u" using assms(6) gu by simp
    ultimately have n: "newline \<notin> set (u @ rf)" by simp
    have p: "pre = [] \<or> pre = ''-e ''" by (simp add: pre_def)
    have "git_parser (pre @ ''git+'' @ (u @ rf) @ ''#egg='' @ name) = Some name"
      using p n assms(4,3) by (rule git_parser_vcs_line)
    then show ?thesis
      using assms(4) by (simp add: line parse_requirement_line_def rstrip_newline_id)
  next
    case None
    have line: "requirement_line (from_data name e) = name"
      using no_version None by (simp add: from_data_def)
    have "git_parser name = None" using assms(2) by (rule git_parser_bare)
    then show ?thesis
      using assms(1,4)
      by (simp add: line parse_requirement_line_def rstrip_newline_id split_first_no_sep)
  qed
qed

theorem C8_name_recovered_from_line_witness:
  "package_name (parse_requirement_line (requirement_line (from_data ''bar'' editable_git_entry)))
     = ''bar''"
  using C8_name_recovered_from_line [of "''bar''" editable_git_entry]
  by (simp add: editable_git_entry_def newline_def)

text \<open>
  C9. If a name of the closure has no entry in the version map, \<open>generate_requirements\<close>
  raises \<open>KeyError\<close>: for such a name, or for the table \<open>dev-packages\<close> when the Pipfile
  lacks it and the policy branch reads it first. When it returns lines there is one line
  for each name of the closure, so no member of the closure is dropped.
\<close>

theorem C9_missing_line_raises:
  "(environment self = Inr env \<and> version_map self rs = Inr vm \<and>
    n \<in> full_dependencies self env rs \<and> get vm n = None \<longrightarrow>
      (\<exists>m. generate_requirements self rs = Inl (KeyError m) \<and>
           (m \<in> full_dependencies self env rs \<and> get vm m = None \<or>
            m = ''dev-packages'' \<and> dev_packages_table (pipfile self) = None))) \<and>
   (generate_requirements self rs = Inr out \<longrightarrow>
      (\<exists>env vm. environment self = Inr env \<and> version_map self rs = Inr vm \<and>
         length out = card (full_dependencies self env rs) \<and>
         (\<forall>n \<in> full_dependencies self env rs.
            \<exists>r. get vm n = Some r \<and> requirement_line r \<in> set out)))"
proof (intro conjI impI)
  assume a: "environment self = Inr env \<and> version_map self rs = Inr vm \<and>
    n \<in> full_dependencies self env rs \<and> get vm n = None"
  let ?ns = "emitted_names self env rs"
  have run: "generate_requirements self rs =
     (case policy_branch self env rs of
        Inl e \<Rightarrow> Inl e
      | Inr u \<Rightarrow> lookup_lines vm ?ns)"
    using a by (intro generate_requirements_run) simp_all
  have mem: "n \<in> set ?ns" using a by (simp add: set_emitted_names)
  show "\<exists>m. generate_requirements self rs = Inl (KeyError m) \<and>
           (m \<in> full_dependencies self env rs \<and> get vm m = None \<or>
            m = ''dev-packages'' \<and> dev_packages_table (pipfile self) = None)"
  proof (cases "policy_branch self env rs")
    case (Inl e)
    then have "e = KeyError ''dev-packages'' \<and> dev_packages_table (pipfile self) = None"
      using policy_branch_Inl by blast
    then show ?thesis using run Inl by simp
  next
    case (Inr u)
    then have g: "generate_requirements self rs = lookup_lines vm ?ns" using run by simp
    show ?thesis
    proof (cases "lookup_lines vm ?ns")
      case (Inl e)
      then obtain m where "m \<in> set ?ns" "e = KeyError m" "get vm m = None"
        using lookup_lines_Inl by blast
      then show ?thesis using g Inl by (auto simp add: set_emitted_names)
    next
      case r: (Inr ls)
      then have "\<forall>k \<in> set ?ns. get vm k \<noteq> None" unfolding lookup_lines_Inr by blast
      then show ?thesis using mem a by blast
    qed
  qed
next
  assume r: "generate_requirements self rs = Inr out"
  then obtain env vm where e: "environment self = Inr env" and vm: "version_map self rs = Inr vm"
    and ll: "lookup_lines vm (emitted_names self env rs) = Inr out"
    unfolding generate_requirements_Inr by blast
  let ?ns = "emitted_names self env rs"
  have all: "\<forall>k \<in> set ?ns. get vm k \<noteq> None"
    and out: "out = map (\<lambda>n. requirement_line (the (get vm n))) ?ns"
    using ll unfolding lookup_lines_Inr by blast+
  have "length out = length ?ns" using out by simp
  also have "\<dots> = card (set ?ns)" using distinct_emitted_names by (simp add: distinct_card)
  finally have c: "length out = card (full_dependencies self env rs)"
    by (simp add: set_emitted_names)
  have "\<forall>n \<in> full_dependencies self env rs.
         \<exists>r. get vm n = Some r \<and> requirement_line r \<in> set out"
  proof
    fix k assume "k \<in> full_dependencies self env rs"
    then have k: "k \<in> set ?ns" by (simp add: set_emitted_names)
    then obtain r where "get vm k = Some r" using all by auto
    moreover have "requirement_line (the (get vm k)) \<in> set out" using k out by simp
    ultimately show "\<exists>r. get vm k = Some r \<and> requirement_line r \<in> set out" by auto
  qed
  then show "\<exists>env vm. environment self = Inr env \<and> version_map self rs = Inr vm \<and>
         length out = card (full_dependencies self env rs) \<and>
         (\<forall>n \<in> full_dependencies self env rs.
            \<exists>r. get vm n = Some r \<and> requirement_line r \<in> set out)"
    using e vm c by blast
qed

theorem C9_missing_line_raises_witness:
  "\<exists>m. generate_requirements unlocked_processor [parse_requirement_line ''a==0.9'']
          = Inl (KeyError m)"
proof -
  let ?rs = "[parse_requirement_line ''a==0.9'']"
  have e: "environment unlocked_processor = Inr [(''a'', ''*'')]" by code_simp
  have v: "version_map unlocked_processor ?rs
      = Inr [(''a'', \<lparr>package_name = ''a'', requirement_line = ''a==1.0''\<rparr>)]" by code_simp
  have h: "''c'' \<in> full_dependencies unlocked_processor [(''a'', ''*'')] ?rs \<and>
      get [(''a'', \<lparr>package_name = ''a'', requirement_line = ''a==1.0''\<rparr>)] ''c'' = None"
    by code_simp
  show ?thesis
    using C9_missing_line_raises [of unlocked_processor "[(''a'', ''*'')]" ?rs
        "[(''a'', \<lparr>package_name = ''a'', requirement_line = ''a==1.0''\<rparr>)]" "''c''" "[]"] e v h
    by blast
qed

text \<open>
  C10 as stated fails for a Pipfile without the table \<open>dev-packages\<close> run with
  \<open>include_dev\<close>: \<open>environment\<close> is read before the list is looked at, and the subscript
  raises \<open>KeyError\<close>.
\<close>

theorem C10_counterexample:
  "generate_requirements no_dev_table_processor [] = Inl (KeyError ''dev-packages'')"
  by code_simp

text \<open>
  C10, amended. Called on an empty list of existing requirements, \<open>generate_requirements\<close>
  returns the empty list exactly when the Pipfile holds the table \<open>packages\<close> and the lock
  holds the section \<open>default\<close>, or with \<open>include_dev\<close> the Pipfile holds \<open>packages\<close> and
  \<open>dev-packages\<close> and the lock holds \<open>develop\<close>, whatever the graph, \<open>force\<close> and \<open>in_place\<close>
  are. It never returns another list.
\<close>

theorem C10_empty_existing:
  "(generate_requirements self [] = Inr [] \<longleftrightarrow>
      packages_table (pipfile self) \<noteq> None \<and>
      (include_dev self \<longrightarrow>
         dev_packages_table (pipfile self) \<noteq> None \<and>
         develop_section (pipfile_lock self) \<noteq> None) \<and>
      (\<not> include_dev self \<longrightarrow> default_section (pipfile_lock self) \<noteq> None)) \<and>
   (generate_requirements self [] = Inr out \<longrightarrow> out = [])"
proof -
  have k: "keys (requirements_dict []) = {}" by (simp add: keys_requirements_dict)
  have f: "full_dependencies self env [] = {}" for env
    using k by (simp add: full_dependencies_expand root_requirements_def)
  have p: "policy_branch self env [] = Inr ()" for env
    using k by (intro policy_branch_no_missing) simp
  have l: "lookup_lines vm (emitted_names self env []) = Inr []" for vm env
    by (simp add: emitted_names_def f)
  have run: "generate_requirements self [] = Inr out \<longleftrightarrow>
      (\<exists>env vm. environment self = Inr env \<and> version_map self [] = Inr vm) \<and> out = []" for out
    unfolding generate_requirements_Inr by (auto simp add: p l)
  have e: "(\<exists>env. environment self = Inr env) \<longleftrightarrow>
      packages_table (pipfile self) \<noteq> None \<and>
      (include_dev self \<longrightarrow> dev_packages_table (pipfile self) \<noteq> None)"
    unfolding environment_def all_packages_def default_packages_def
    by (auto split: option.splits)
  have v: "(\<exists>vm. version_map self [] = Inr vm) \<longleftrightarrow>
      (include_dev self \<longrightarrow> develop_section (pipfile_lock self) \<noteq> None) \<and>
      (\<not> include_dev self \<longrightarrow> default_section (pipfile_lock self) \<noteq> None)"
    unfolding version_map_def lock_dev_def lock_default_def
    by (auto split: option.splits)
  show ?thesis using run e v by blast
qed

theorem C10_empty_existing_witness:
  "generate_requirements scenario_processor [] = Inr []"
proof -
  have "packages_table (pipfile scenario_processor) \<noteq> None \<and>
      (include_dev scenario_processor \<longrightarrow>
         dev_packages_table (pipfile scenario_processor) \<noteq> None \<and>
         develop_section (pipfile_lock scenario_processor) \<noteq> None) \<and>
      (\<not> include_dev scenario_processor \<longrightarrow>
         default_section (pipfile_lock scenario_processor) \<noteq> None)"
    by (simp add: scenario_processor_def)
  then show ?thesis using C10_empty_existing [of scenario_processor "[]"] by blast
qed

end
